theory Spec2Isabelle
  imports Complex_Main "HOL-Library.AList"
begin

section \<open>The AOE critical-path engine of \<open>bst_mcp_server/aoe_graph.py\<close>\<close>

text \<open>
  The development follows the class \<open>AOEGraph\<close>. Conventions of the embedding:
  \<^item> a Python \<open>dict\<close> is an association list with distinct keys, read with \<open>map_of\<close> and
    written with \<open>AList.update\<close> (overwrite in place, or append: the insertion order of the
    dictionary, which the loops over \<open>self.nodes\<close> follow);
  \<^item> a \<open>defaultdict\<close> is a total function whose value at a missing key is the default
    (\<open>[]\<close> for \<open>adj\<close>, \<open>0\<close> for \<open>in_degree\<close>); that reading a missing key also stores the
    default is not observable by the methods modelled here;
  \<^item> durations are Python numbers (\<open>int\<close> from the working-day count, \<open>float\<close> from the
    estimate); they are modelled as exact rationals;
  \<^item> every exception is a value \<open>Inl e\<close> of the result type \<open>error + 'a\<close>;
  \<^item> node display names, which are formatted with non-ASCII literals in the source and
    never read by the algorithms, are kept as symbolic labels.
\<close>

subsection \<open>Data model\<close>

type_synonym node_id = string
type_synonym duration = rat

datatype error = KeyError | ValueError | TypeError | AttributeError | OverflowError

datatype node_name =
    ProjectStartName "string option"
  | ProjectEndName "string option"
  | TaskStartName "string option"
  | TaskEndName "string option"

record task =
  key :: "string option"
  summary :: "string option"
  isSubtask :: "bool option"
  subtasks :: "string list"
  predecessors :: "string list option"
  plan_start :: "string option"
  plan_end :: "string option"
  actual_start :: "string option"
  actual_end :: "string option"
  aggregatetimeoriginalestimate :: "int option"
  keytask :: "string option"

record graph =
  gkey :: "string option"
  gname :: "string option"
  nodes :: "(node_id \<times> node_name) list"
  adj :: "node_id \<Rightarrow> (node_id \<times> duration) list"
  in_degree :: "node_id \<Rightarrow> int"
  ve :: "(node_id \<times> duration) list"
  vl :: "(node_id \<times> duration) list"
  critical_path :: "(node_id \<times> node_id \<times> duration) list"
  tasks :: "task list option"

text \<open>\<open>AOEGraph.__init__\<close>: the attribute \<open>tasks\<close> does not exist until
  \<open>build_graph_from_tasks\<close> sets it (\<open>None\<close> here).\<close>

definition init :: "string option \<Rightarrow> string option \<Rightarrow> graph" where
  "init k n = \<lparr> gkey = k, gname = n, nodes = [], adj = (\<lambda>_. []), in_degree = (\<lambda>_. 0),
     ve = [], vl = [], critical_path = [], tasks = None \<rparr>"

text \<open>\<open>remove_suffix\<close>: \<open>s[:-len(suffix)]\<close> when \<open>s.endswith(suffix)\<close>. With an empty
  suffix the slice \<open>s[:-0]\<close> is \<open>s[:0]\<close>, the empty string.\<close>

definition endswith :: "string \<Rightarrow> string \<Rightarrow> bool" where
  "endswith s suffix = (length suffix \<le> length s \<and> drop (length s - length suffix) s = suffix)"

definition remove_suffix :: "string \<Rightarrow> string \<Rightarrow> string" where
  "remove_suffix s suffix =
     (if endswith s suffix
      then (if suffix = [] then [] else take (length s - length suffix) s)
      else s)"

subsection \<open>Nodes and edges\<close>

text \<open>\<open>add_node\<close>: \<open>self.nodes[node_id] = node_name\<close>; the in-degree entry is created with
  value 0 when missing, which leaves the total function unchanged.\<close>

definition add_node :: "graph \<Rightarrow> node_id \<Rightarrow> node_name \<Rightarrow> graph" where
  "add_node g node_id node_name =
     g\<lparr> nodes := AList.update node_id node_name (nodes g),
        in_degree := (in_degree g)(node_id := in_degree g node_id) \<rparr>"

text \<open>The search loop of \<open>add_edge\<close>: the first entry whose target is \<open>end_node\<close> is
  overwritten and the loop breaks; \<open>None\<close> is \<open>found = False\<close>.\<close>

fun overwrite_edge ::
  "node_id \<Rightarrow> duration \<Rightarrow> (node_id \<times> duration) list \<Rightarrow> (node_id \<times> duration) list option"
where
  "overwrite_edge end_node d [] = None"
| "overwrite_edge end_node d ((target, w) # es) =
     (if target = end_node then Some ((end_node, d) # es)
      else map_option ((#) (target, w)) (overwrite_edge end_node d es))"

definition add_edge :: "graph \<Rightarrow> node_id \<Rightarrow> node_id \<Rightarrow> duration \<Rightarrow> graph" where
  "add_edge g start_node end_node d =
     (case overwrite_edge end_node d (adj g start_node) of
        Some es \<Rightarrow> g\<lparr> adj := (adj g)(start_node := es) \<rparr>
      | None \<Rightarrow>
          g\<lparr> adj := (adj g)(start_node := adj g start_node @ [(end_node, d)]),
             in_degree := (in_degree g)(end_node := in_degree g end_node + 1) \<rparr>)"

subsection \<open>Critical path solver\<close>

text \<open>The body of the \<open>for v, w in self.adj[u]\<close> loop of \<open>topological_sort\<close>:
  \<open>self.ve[v]\<close> and \<open>self.ve[u]\<close> raise \<open>KeyError\<close> on a missing key;
  \<open>in_degree_copy\<close> is a \<open>defaultdict\<close>; the queue is a deque, appended at the right.\<close>

fun relax ::
  "node_id \<Rightarrow> (node_id \<times> duration) list
     \<Rightarrow> (node_id \<times> duration) list \<times> (node_id \<Rightarrow> int) \<times> node_id list
     \<Rightarrow> error + ((node_id \<times> duration) list \<times> (node_id \<Rightarrow> int) \<times> node_id list)"
where
  "relax u [] s = Inr s"
| "relax u ((v, w) # es) (ve_d, in_degree_copy, queue) =
     (case map_of ve_d v of
        None \<Rightarrow> Inl KeyError
      | Some ve_v \<Rightarrow>
          (case map_of ve_d u of
             None \<Rightarrow> Inl KeyError
           | Some ve_u \<Rightarrow>
               (let ve_d' = AList.update v (max ve_v (ve_u + w)) ve_d;
                    copy' = in_degree_copy(v := in_degree_copy v - 1);
                    queue' = (if copy' v = 0 then queue @ [v] else queue)
                in relax u es (ve_d', copy', queue'))))"

text \<open>The number of keys of \<open>ve\<close> whose remaining in-degree is positive, twice, plus the
  length of the queue: the quantity that every iteration of \<open>while queue\<close> decreases.\<close>

definition topo_measure ::
  "(node_id \<times> duration) list \<Rightarrow> (node_id \<Rightarrow> int) \<Rightarrow> node_id list \<Rightarrow> nat" where
  "topo_measure ve_d c q = 2 * card {v \<in> fst ` set ve_d. 0 < c v} + length q"

lemma relax_measure:
  "relax u es (ve_d, c, q) = Inr (ve_d', c', q') \<Longrightarrow>
     fst ` set ve_d' = fst ` set ve_d \<and> topo_measure ve_d' c' q' \<le> topo_measure ve_d c q"
proof (induction es arbitrary: ve_d c q)
  case Nil
  then show ?case by simp
next
  case (Cons e es)
  obtain v w where e: "e = (v, w)" by (cases e)
  from Cons.prems e obtain x y where x: "map_of ve_d v = Some x" and y: "map_of ve_d u = Some y"
    by (auto split: option.splits)
  define ve1 where "ve1 = AList.update v (max x (y + w)) ve_d"
  define c1 where "c1 = c(v := c v - 1)"
  define q1 where "q1 = (if c1 v = 0 then q @ [v] else q)"
  from Cons.prems e x y have r: "relax u es (ve1, c1, q1) = Inr (ve_d', c', q')"
    by (simp add: ve1_def c1_def q1_def Let_def)
  have vin: "v \<in> fst ` set ve_d" using x by (metis map_of_eq_None_iff option.distinct(1))
  have k1: "fst ` set ve1 = fst ` set ve_d"
    using vin by (auto simp: ve1_def dom_update)
  have fin: "finite {a \<in> fst ` set ve_d. 0 < c a}" by simp
  have m1: "topo_measure ve1 c1 q1 \<le> topo_measure ve_d c q"
  proof (cases "c1 v = 0")
    case True
    then have cv: "c v = 1" by (simp add: c1_def)
    have "{a \<in> fst ` set ve_d. 0 < c1 a} = {a \<in> fst ` set ve_d. 0 < c a} - {v}"
      using cv by (auto simp: c1_def)
    moreover have "v \<in> {a \<in> fst ` set ve_d. 0 < c a}" using vin cv by simp
    ultimately have "card {a \<in> fst ` set ve_d. 0 < c1 a} + 1 = card {a \<in> fst ` set ve_d. 0 < c a}"
      using fin by (metis (no_types, lifting) Suc_eq_plus1 card_Suc_Diff1)
    with True show ?thesis by (simp add: topo_measure_def k1 q1_def)
  next
    case False
    have "{a \<in> fst ` set ve_d. 0 < c1 a} \<subseteq> {a \<in> fst ` set ve_d. 0 < c a}"
      by (auto simp: c1_def split: if_splits)
    then have "card {a \<in> fst ` set ve_d. 0 < c1 a} \<le> card {a \<in> fst ` set ve_d. 0 < c a}"
      using fin by (rule card_mono[rotated])
    with False show ?thesis by (simp add: topo_measure_def k1 q1_def)
  qed
  from Cons.IH[OF r] k1 m1 show ?case by simp
qed

text \<open>The \<open>while queue\<close> loop of \<open>topological_sort\<close>: \<open>popleft\<close> takes the head.\<close>

function topo_loop ::
  "(node_id \<Rightarrow> (node_id \<times> duration) list) \<Rightarrow> (node_id \<times> duration) list
     \<Rightarrow> (node_id \<Rightarrow> int) \<Rightarrow> node_id list \<Rightarrow> node_id list
     \<Rightarrow> error + ((node_id \<times> duration) list \<times> node_id list)"
where
  "topo_loop adj_d ve_d in_degree_copy [] topo_order = Inr (ve_d, topo_order)"
| "topo_loop adj_d ve_d in_degree_copy (u # queue) topo_order =
     (case relax u (adj_d u) (ve_d, in_degree_copy, queue) of
        Inl e \<Rightarrow> Inl e
      | Inr (ve_d', copy', queue') \<Rightarrow> topo_loop adj_d ve_d' copy' queue' (topo_order @ [u]))"
  by pat_completeness auto
termination
proof (relation "measure (\<lambda>(adj_d, ve_d, c, q, topo_order). topo_measure ve_d c q)")
  show "wf (measure (\<lambda>(adj_d, ve_d, c, q, topo_order). topo_measure ve_d c q))" by simp
next
  fix adj_d :: "node_id \<Rightarrow> (node_id \<times> duration) list"
    and ve_d in_degree_copy u queue and topo_order :: "node_id list" and x2 x y xa ya
  assume "relax u (adj_d u) (ve_d, in_degree_copy, queue) = Inr x2" "(x, y) = x2" "(xa, ya) = y"
  then have "relax u (adj_d u) (ve_d, in_degree_copy, queue) = Inr (x, xa, ya)" by simp
  from relax_measure[OF this]
  have "topo_measure x xa ya \<le> topo_measure ve_d in_degree_copy queue" by simp
  then show "((adj_d, x, xa, ya, topo_order @ [u]), (adj_d, ve_d, in_degree_copy, u # queue, topo_order))
      \<in> measure (\<lambda>(adj_d, ve_d, c, q, topo_order). topo_measure ve_d c q)"
    by (simp add: topo_measure_def)
qed

text \<open>\<open>topological_sort\<close>: the copy of the in-degrees, the queue of the nodes of in-degree
  zero in the order of \<open>self.nodes\<close>, \<open>ve\<close> reset to 0 on every node, then the loop. Only
  \<open>self.ve\<close> is written.\<close>

definition topological_sort :: "graph \<Rightarrow> error + (graph \<times> node_id list)" where
  "topological_sort g =
     (let in_degree_copy = in_degree g;
          queue = filter (\<lambda>node. in_degree_copy node = 0) (map fst (nodes g));
          ve0 = fold (\<lambda>node d. AList.update node 0 d) (map fst (nodes g)) (ve g)
      in case topo_loop (adj g) ve0 in_degree_copy queue [] of
           Inl e \<Rightarrow> Inl e
         | Inr (ve_d, topo_order) \<Rightarrow> Inr (g\<lparr> ve := ve_d \<rparr>, topo_order))"

text \<open>Python's \<open>max\<close> of a sequence: \<open>ValueError\<close> when it is empty.\<close>

fun py_max :: "duration list \<Rightarrow> error + duration" where
  "py_max [] = Inl ValueError"
| "py_max (x # xs) = Inr (fold max xs x)"

text \<open>The backward pass: for \<open>u\<close> in reversed topological order and every edge
  \<open>(v, w)\<close> of \<open>u\<close>, \<open>vl[u] = min(vl[u], vl[v] - w)\<close>.\<close>

fun relax_back ::
  "node_id \<Rightarrow> (node_id \<times> duration) list \<Rightarrow> (node_id \<times> duration) list
     \<Rightarrow> error + (node_id \<times> duration) list"
where
  "relax_back u [] vl_d = Inr vl_d"
| "relax_back u ((v, w) # es) vl_d =
     (case map_of vl_d u of
        None \<Rightarrow> Inl KeyError
      | Some vl_u \<Rightarrow>
          (case map_of vl_d v of
             None \<Rightarrow> Inl KeyError
           | Some vl_v \<Rightarrow> relax_back u es (AList.update u (min vl_u (vl_v - w)) vl_d)))"

fun backward_pass ::
  "(node_id \<Rightarrow> (node_id \<times> duration) list) \<Rightarrow> node_id list \<Rightarrow> (node_id \<times> duration) list
     \<Rightarrow> error + (node_id \<times> duration) list"
where
  "backward_pass adj_d [] vl_d = Inr vl_d"
| "backward_pass adj_d (u # us) vl_d =
     (case relax_back u (adj_d u) vl_d of
        Inl e \<Rightarrow> Inl e
      | Inr vl_d' \<Rightarrow> backward_pass adj_d us vl_d')"

text \<open>Step 3: the edges with \<open>ve[u] == vl[v] - w\<close>, in the order of \<open>self.nodes\<close> and
  of each adjacency list.\<close>

fun critical_of_node ::
  "(node_id \<times> duration) list \<Rightarrow> (node_id \<times> duration) list \<Rightarrow> node_id
     \<Rightarrow> (node_id \<times> duration) list \<Rightarrow> (node_id \<times> node_id \<times> duration) list
     \<Rightarrow> error + (node_id \<times> node_id \<times> duration) list"
where
  "critical_of_node ve_d vl_d u [] critical_edges = Inr critical_edges"
| "critical_of_node ve_d vl_d u ((v, w) # es) critical_edges =
     (case map_of ve_d u of
        None \<Rightarrow> Inl KeyError
      | Some e \<Rightarrow>
          (case map_of vl_d v of
             None \<Rightarrow> Inl KeyError
           | Some vl_v \<Rightarrow>
               critical_of_node ve_d vl_d u es
                 (if e = vl_v - w then critical_edges @ [(u, v, w)] else critical_edges)))"

fun collect_critical ::
  "(node_id \<Rightarrow> (node_id \<times> duration) list) \<Rightarrow> (node_id \<times> duration) list
     \<Rightarrow> (node_id \<times> duration) list \<Rightarrow> node_id list \<Rightarrow> (node_id \<times> node_id \<times> duration) list
     \<Rightarrow> error + (node_id \<times> node_id \<times> duration) list"
where
  "collect_critical adj_d ve_d vl_d [] critical_edges = Inr critical_edges"
| "collect_critical adj_d ve_d vl_d (u # us) critical_edges =
     (case critical_of_node ve_d vl_d u (adj_d u) critical_edges of
        Inl e \<Rightarrow> Inl e
      | Inr critical_edges' \<Rightarrow> collect_critical adj_d ve_d vl_d us critical_edges')"

text \<open>\<open>calculate_critical_path\<close>. The result \<open>None\<close> is the source's \<open>return None\<close> on a
  topological order shorter than the node count; \<open>len(self.nodes)\<close> is the number of
  keys. An exception leaves the method with \<open>Inl\<close>.\<close>

definition calculate_critical_path ::
  "graph \<Rightarrow> error + (graph \<times> ((node_id \<times> node_id \<times> duration) list \<times> duration) option)" where
  "calculate_critical_path g =
     (case topological_sort g of
        Inl e \<Rightarrow> Inl e
      | Inr (g1, topo_order) \<Rightarrow>
          if length topo_order \<noteq> length (nodes g1) then Inr (g1, None)
          else
            (case py_max (map snd (ve g1)) of
               Inl e \<Rightarrow> Inl e
             | Inr max_time \<Rightarrow>
                 (let vl0 = fold (\<lambda>node d. AList.update node max_time d) (map fst (nodes g1)) (vl g1)
                  in case backward_pass (adj g1) (rev topo_order) vl0 of
                       Inl e \<Rightarrow> Inl e
                     | Inr vl_d \<Rightarrow>
                         (case collect_critical (adj g1) (ve g1) vl_d (map fst (nodes g1)) [] of
                            Inl e \<Rightarrow> Inl e
                          | Inr critical_edges \<Rightarrow>
                              Inr (g1\<lparr> vl := vl_d, critical_path := critical_edges \<rparr>,
                                   Some (critical_edges, max_time))))))"

subsection \<open>Duration resolver\<close>

text \<open>\<open>datetime.strptime\<close> and \<open>strftime\<close> belong to the Python library, not to the
  repository: they are parameters of the model. A \<open>datetime\<close> parsed with the format
  \<open>%Y-%m-%d\<close> is a date at midnight, modelled by its proleptic Gregorian ordinal
  (\<open>toordinal()\<close>); \<open>strptime\<close> is \<open>None\<close> where the library raises \<open>ValueError\<close>.\<close>

record calendar =
  strptime :: "string \<Rightarrow> int option"
  strftime :: "int \<Rightarrow> string"

text \<open>\<open>HolidayUtil._load_holidays\<close> and \<open>is_holiday\<close> (\<open>holiday_util.py\<close>).\<close>

definition holidays :: "string list" where
  "holidays =
     [''2024-01-01'',
      ''2024-02-10'', ''2024-02-11'', ''2024-02-12'', ''2024-02-13'', ''2024-02-14'',
      ''2024-02-15'', ''2024-02-16'',
      ''2024-04-04'', ''2024-04-05'', ''2024-04-06'',
      ''2024-05-01'', ''2024-05-02'', ''2024-05-03'', ''2024-05-04'',
      ''2024-06-08'', ''2024-06-09'', ''2024-06-10'',
      ''2024-09-15'', ''2024-09-16'', ''2024-09-17'',
      ''2024-10-01'', ''2024-10-02'', ''2024-10-03'', ''2024-10-04'', ''2024-10-05'',
      ''2024-10-06'',
      ''2025-01-01'',
      ''2025-01-28'', ''2025-01-29'', ''2025-01-30'', ''2025-01-31'', ''2025-02-01'',
      ''2025-02-02'', ''2025-02-03'',
      ''2025-04-04'', ''2025-04-05'', ''2025-04-06'',
      ''2025-05-01'', ''2025-05-02'', ''2025-05-03'',
      ''2025-06-07'', ''2025-06-08'', ''2025-06-09'',
      ''2025-09-15'', ''2025-09-16'', ''2025-09-17'',
      ''2025-10-01'', ''2025-10-02'', ''2025-10-03'', ''2025-10-04'', ''2025-10-05'',
      ''2025-10-06'', ''2025-10-07'']"

definition is_holiday :: "string \<Rightarrow> bool" where
  "is_holiday date_str = (date_str \<in> set holidays)"

text \<open>The local function \<open>parse_date\<close>: a missing or empty string is \<open>None\<close>; otherwise
  the part before the first \<open>T\<close> is parsed, and a \<open>ValueError\<close> is caught and gives
  \<open>None\<close>.\<close>

definition parse_date :: "calendar \<Rightarrow> string option \<Rightarrow> int option" where
  "parse_date cal date_str =
     (case date_str of
        None \<Rightarrow> None
      | Some s \<Rightarrow> if s = [] then None else strptime cal (takeWhile (\<lambda>c. c \<noteq> CHR ''T'') s))"

text \<open>Step 1 and Step 2 of \<open>calculate_task_duration\<close>: the start and the end instant.\<close>

definition task_start_of :: "calendar \<Rightarrow> task \<Rightarrow> int option" where
  "task_start_of cal t =
     (case (parse_date cal (plan_start t), parse_date cal (actual_start t)) of
        (Some plan_start_dt, Some actual_start_dt) \<Rightarrow> Some (max plan_start_dt actual_start_dt)
      | (Some plan_start_dt, None) \<Rightarrow> Some plan_start_dt
      | (None, Some actual_start_dt) \<Rightarrow> Some actual_start_dt
      | (None, None) \<Rightarrow> None)"

definition task_end_of :: "calendar \<Rightarrow> task \<Rightarrow> int option" where
  "task_end_of cal t =
     (case task_start_of cal t of
        Some task_start \<Rightarrow>
          (case (parse_date cal (plan_end t), parse_date cal (actual_end t)) of
             (Some plan_end_dt, Some actual_end_dt) \<Rightarrow>
               if actual_end_dt \<ge> task_start then Some actual_end_dt else Some plan_end_dt
           | (Some plan_end_dt, None) \<Rightarrow> Some plan_end_dt
           | (None, Some actual_end_dt) \<Rightarrow> Some actual_end_dt
           | (None, None) \<Rightarrow> None)
      | None \<Rightarrow> None)"

text \<open>The ordinal of \<open>datetime.max\<close> (9999-12-31): adding a day beyond it raises
  \<open>OverflowError\<close>.\<close>

definition max_ordinal :: int where
  "max_ordinal = 3652059"

text \<open>Step 3, the loop \<open>while current <= task_end\<close>: \<open>weekday()\<close> is
  \<open>(toordinal() + 6) % 7\<close>, Monday being 0.\<close>

function count_workdays :: "calendar \<Rightarrow> int \<Rightarrow> int \<Rightarrow> int \<Rightarrow> error + int" where
  "count_workdays cal current task_end day_count =
     (if current \<le> task_end
      then (let day_count' =
                  (if (current + 6) mod 7 < 5 \<and> \<not> is_holiday (strftime cal current)
                   then day_count + 1 else day_count)
            in if current + 1 > max_ordinal then Inl OverflowError
               else count_workdays cal (current + 1) task_end day_count')
      else Inr day_count)"
  by pat_completeness auto
termination
  by (relation "measure (\<lambda>(cal, current, task_end, day_count). nat (task_end + 1 - current))") auto

text \<open>\<open>calculate_task_duration\<close>: hours from the working days when both instants are
  known, else from a positive estimate in seconds, else \<open>None\<close>.\<close>

definition calculate_task_duration :: "calendar \<Rightarrow> task \<Rightarrow> error + duration option" where
  "calculate_task_duration cal t =
     (case (task_start_of cal t, task_end_of cal t) of
        (Some task_start, Some task_end) \<Rightarrow>
          (case count_workdays cal task_start task_end 0 of
             Inl e \<Rightarrow> Inl e
           | Inr day_count \<Rightarrow> Inr (Some (of_int (day_count * 8))))
      | _ \<Rightarrow>
          (case aggregatetimeoriginalestimate t of
             Some estimate_seconds \<Rightarrow>
               if estimate_seconds > 0 then Inr (Some (of_int estimate_seconds / 3600))
               else Inr None
           | None \<Rightarrow> Inr None))"

subsection \<open>Graph builder\<close>

text \<open>The f-string \<open>{task_key}\<close>: \<open>None\<close> is formatted as the text \<open>None\<close>.\<close>

definition fmt :: "string option \<Rightarrow> string" where
  "fmt k = (case k of None \<Rightarrow> ''None'' | Some s \<Rightarrow> s)"

text \<open>A \<open>for\<close> loop whose body may raise: the first exception ends it.\<close>

fun for_each :: "('s \<Rightarrow> 'a \<Rightarrow> error + 's) \<Rightarrow> 'a list \<Rightarrow> 's \<Rightarrow> error + 's" where
  "for_each body [] s = Inr s"
| "for_each body (x # xs) s =
     (case body s x of Inl e \<Rightarrow> Inl e | Inr s' \<Rightarrow> for_each body xs s')"

text \<open>\<open>get_task_by_key\<close>: the first task with that key.\<close>

definition get_task_by_key :: "task list \<Rightarrow> string \<Rightarrow> task option" where
  "get_task_by_key ts task_key = find (\<lambda>t. key t = Some task_key) ts"

text \<open>\<open>add_nodes\<close>: nothing is added when the key or the name is \<open>None\<close>.\<close>

definition add_task_nodes :: "graph \<Rightarrow> task \<Rightarrow> graph" where
  "add_task_nodes g t =
     add_node (add_node g (fmt (key t) @ ''_start'') (TaskStartName (summary t)))
       (fmt (key t) @ ''_end'') (TaskEndName (summary t))"

definition add_nodes :: "graph \<Rightarrow> task list \<Rightarrow> string option \<Rightarrow> string option \<Rightarrow> graph" where
  "add_nodes g ts k name =
     (case k of
        None \<Rightarrow> g
      | Some _ \<Rightarrow>
          (case name of
             None \<Rightarrow> g
           | Some _ \<Rightarrow>
               (let g1 = add_node g (fmt k @ ''_start'') (ProjectStartName name);
                    g2 = fold (\<lambda>t g. add_task_nodes g t) ts g1
                in add_node g2 (fmt k @ ''_end'') (ProjectEndName name))))"

text \<open>\<open>add_edges\<close>, first loop (lines 368 to 396): the duration edge of the task, then
  either the edges from its predecessors or, for a task whose \<open>isSubtask\<close> is \<open>False\<close>, the
  edge from the project start. A task without key or without duration is skipped.\<close>

definition add_task_edges :: "calendar \<Rightarrow> string option \<Rightarrow> graph \<Rightarrow> task \<Rightarrow> error + graph" where
  "add_task_edges cal k g t =
     (case key t of
        None \<Rightarrow> Inr g
      | Some task_key \<Rightarrow>
          if task_key = [] then Inr g
          else
            (case calculate_task_duration cal t of
               Inl e \<Rightarrow> Inl e
             | Inr None \<Rightarrow> Inr g
             | Inr (Some task_duration) \<Rightarrow>
                 (let end_node_id = task_key @ ''_end'';
                      start_node_id = task_key @ ''_start'';
                      g1 = add_edge g start_node_id end_node_id task_duration
                  in case predecessors t of
                       Some (p # ps) \<Rightarrow>
                         Inr (fold (\<lambda>predecessor_key g. add_edge g (predecessor_key @ ''_end'') start_node_id 0)
                                (p # ps) g1)
                     | _ \<Rightarrow>
                         if isSubtask t = Some False
                         then Inr (add_edge g1 (fmt k @ ''_start'') start_node_id 0)
                         else Inr g1)))"

text \<open>The keys that occur in some list of predecessors.\<close>

definition referenced_tasks :: "task list \<Rightarrow> string set" where
  "referenced_tasks ts =
     set (concat (map (\<lambda>t. case predecessors t of None \<Rightarrow> [] | Some ps \<Rightarrow> ps) ts))"

text \<open>Second loop (lines 406 to 444), the inner loop over the subtask keys: the entry
  edge of a subtask without predecessors, and the sum
  \<open>task_duration + self.calculate_task_duration(subtask)\<close>, which raises \<open>TypeError\<close>
  when the duration of the subtask is \<open>None\<close>.\<close>

definition wire_subtask ::
  "calendar \<Rightarrow> task list \<Rightarrow> node_id \<Rightarrow> graph \<times> duration \<Rightarrow> string \<Rightarrow> error + (graph \<times> duration)" where
  "wire_subtask cal ts start_node_id s subtask_key =
     (case s of (g, task_duration) \<Rightarrow>
        (case get_task_by_key ts subtask_key of
           None \<Rightarrow> Inr (g, task_duration)
         | Some subtask \<Rightarrow>
             (let ps = (case predecessors subtask of None \<Rightarrow> [] | Some ps \<Rightarrow> ps);
                  g1 = (if length ps = 0 then add_edge g start_node_id (subtask_key @ ''_start'') 0
                        else g)
              in case calculate_task_duration cal subtask of
                   Inl e \<Rightarrow> Inl e
                 | Inr None \<Rightarrow> Inl TypeError
                 | Inr (Some d) \<Rightarrow> Inr (g1, task_duration + d))))"

definition add_subtask_edges ::
  "calendar \<Rightarrow> task list \<Rightarrow> string set \<Rightarrow> graph \<Rightarrow> task \<Rightarrow> error + graph" where
  "add_subtask_edges cal ts referenced g t =
     (case key t of
        None \<Rightarrow> Inr g
      | Some task_key \<Rightarrow>
          if task_key = [] then Inr g
          else if subtasks t = [] then Inr g
          else
            (let end_node_id = task_key @ ''_end'';
                 start_node_id = task_key @ ''_start''
             in case for_each (wire_subtask cal ts start_node_id) (subtasks t) (g, 0) of
                  Inl e \<Rightarrow> Inl e
                | Inr (g1, task_duration) \<Rightarrow>
                    (let g2 = fold (\<lambda>subtask_key g.
                                 if subtask_key \<notin> referenced
                                 then add_edge g (subtask_key @ ''_end'') end_node_id 0 else g)
                               (subtasks t) g1
                     in Inr (add_edge g2 start_node_id end_node_id 0))))"

text \<open>Third loop (lines 446 to 454): the tasks whose key is in no list of predecessors
  and whose \<open>isSubtask\<close> is \<open>False\<close> are linked to the project end.\<close>

definition add_end_edge :: "string option \<Rightarrow> string set \<Rightarrow> graph \<Rightarrow> task \<Rightarrow> graph" where
  "add_end_edge k referenced g t =
     (if (case key t of None \<Rightarrow> True | Some task_key \<Rightarrow> task_key \<notin> referenced)
      then (if isSubtask t = Some False
            then add_edge g (fmt (key t) @ ''_end'') (fmt k @ ''_end'') 0 else g)
      else g)"

definition add_edges ::
  "calendar \<Rightarrow> graph \<Rightarrow> task list \<Rightarrow> string option \<Rightarrow> string option \<Rightarrow> error + graph" where
  "add_edges cal g ts k name =
     (case for_each (add_task_edges cal k) ts g of
        Inl e \<Rightarrow> Inl e
      | Inr g1 \<Rightarrow>
          (case for_each (add_subtask_edges cal ts (referenced_tasks ts)) ts g1 of
             Inl e \<Rightarrow> Inl e
           | Inr g2 \<Rightarrow> Inr (fold (\<lambda>t g. add_end_edge k (referenced_tasks ts) g t) ts g2)))"

definition build_graph_from_tasks ::
  "calendar \<Rightarrow> graph \<Rightarrow> task list \<Rightarrow> string option \<Rightarrow> string option \<Rightarrow> error + graph" where
  "build_graph_from_tasks cal g ts k name =
     add_edges cal (add_nodes (g\<lparr> tasks := Some ts \<rparr>) ts k name) ts k name"

subsection \<open>Critical task annotator\<close>

text \<open>\<open>task["keytask"] = "true"\<close> on the task that \<open>get_task_by_key\<close> finds: the first
  one with the key. The result is the marked task and the updated list.\<close>

fun mark_task :: "string \<Rightarrow> task list \<Rightarrow> (task \<times> task list) option" where
  "mark_task k [] = None"
| "mark_task k (t # ts) =
     (if key t = Some k
      then Some (t\<lparr> keytask := Some ''true'' \<rparr>, t\<lparr> keytask := Some ''true'' \<rparr> # ts)
      else map_option (\<lambda>(m, ts'). (m, t # ts')) (mark_task k ts))"

text \<open>The body of the loop over \<open>self.critical_path\<close>. Reading \<open>self.tasks\<close> before
  \<open>build_graph_from_tasks\<close> has set it raises \<open>AttributeError\<close>.\<close>

definition annotate_edge ::
  "task list option \<times> task list \<Rightarrow> node_id \<times> node_id \<times> duration
     \<Rightarrow> error + (task list option \<times> task list)" where
  "annotate_edge s e =
     (case s of (tasks_attr, critical_tasks) \<Rightarrow>
      case e of (u, v, w) \<Rightarrow>
        if w > 0
        then (case tasks_attr of
                None \<Rightarrow> Inl AttributeError
              | Some ts \<Rightarrow>
                  (case mark_task (remove_suffix u ''_start'') ts of
                     None \<Rightarrow> Inr (Some ts, critical_tasks)
                   | Some (task, ts') \<Rightarrow> Inr (Some ts', critical_tasks @ [task])))
        else Inr (tasks_attr, critical_tasks))"

text \<open>\<open>get_critical_tasks\<close>: the result is the dictionary with the single key
  \<open>self.key\<close>, given as the pair of the key and its list.\<close>

definition get_critical_tasks :: "graph \<Rightarrow> error + (graph \<times> (string option \<times> task list))" where
  "get_critical_tasks g =
     (case (if critical_path g = []
            then (case calculate_critical_path g of Inl e \<Rightarrow> Inl e | Inr (g', r) \<Rightarrow> Inr g')
            else Inr g) of
        Inl e \<Rightarrow> Inl e
      | Inr g1 \<Rightarrow>
          (case for_each annotate_edge (critical_path g1) (tasks g1, []) of
             Inl e \<Rightarrow> Inl e
           | Inr (tasks_attr, critical_tasks) \<Rightarrow>
               Inr (g1\<lparr> tasks := tasks_attr \<rparr>, (gkey g1, critical_tasks))))"

text \<open>The computation of \<open>find_critical_path\<close> inside its \<open>try\<close> block: a fresh graph,
  \<open>build_graph_from_tasks\<close>, then \<open>get_critical_tasks\<close>.\<close>

definition critical_path_computation ::
  "calendar \<Rightarrow> task list \<Rightarrow> string option \<Rightarrow> string option
     \<Rightarrow> error + (graph \<times> (string option \<times> task list))" where
  "critical_path_computation cal ts k name =
     (case build_graph_from_tasks cal (init k name) ts k name of
        Inl e \<Rightarrow> Inl e
      | Inr g \<Rightarrow> get_critical_tasks g)"

text \<open>A graph has no parallel edge when no adjacency list names a target twice. The
  empty graph has none and \<open>add_node\<close> and \<open>add_edge\<close> keep it so (lemmas
  \<open>no_parallel_init\<close>, \<open>no_parallel_add_node\<close>, \<open>no_parallel_add_edge\<close>).\<close>

definition no_parallel :: "graph \<Rightarrow> bool" where
  "no_parallel g = (\<forall>u. distinct (map fst (adj g u)))"

definition has_edge :: "graph \<Rightarrow> node_id \<Rightarrow> node_id \<Rightarrow> bool" where
  "has_edge g u v = (v \<in> fst ` set (adj g u))"

definition edges_between :: "graph \<Rightarrow> node_id \<Rightarrow> node_id \<Rightarrow> (node_id \<times> duration) list" where
  "edges_between g u v = filter (\<lambda>e. fst e = v) (adj g u)"

subsection \<open>Well-formed graphs\<close>

text \<open>\<open>in_count adj us v\<close> is the number of edges into \<open>v\<close> from the sources \<open>us\<close>. A
  graph is well formed when the keys of \<open>self.nodes\<close> are distinct (a dictionary), \<open>ve\<close>
  has no key outside the nodes, and the recorded in-degree of a node is at least the number
  of edges into it from nodes. Every graph built from \<open>init\<close> by \<open>add_node\<close> and
  \<open>add_edge\<close> is well formed (lemma \<open>built_wf_graph\<close>).\<close>

definition in_count :: "(node_id \<Rightarrow> (node_id \<times> duration) list) \<Rightarrow> node_id list \<Rightarrow> node_id \<Rightarrow> nat" where
  "in_count adj_d us v = sum_list (map (\<lambda>u. length (filter (\<lambda>e. fst e = v) (adj_d u))) us)"

definition node_ids :: "graph \<Rightarrow> node_id list" where
  "node_ids g = map fst (nodes g)"

definition wf_graph :: "graph \<Rightarrow> bool" where
  "wf_graph g \<longleftrightarrow>
     distinct (node_ids g) \<and> fst ` set (ve g) \<subseteq> set (node_ids g) \<and>
     (\<forall>v \<in> set (node_ids g). int (in_count (adj g) (node_ids g) v) \<le> in_degree g v)"

text \<open>The forward pass is settled on the nodes \<open>us\<close>: \<open>ve[u] + w \<le> ve[v]\<close> on each of
  their edges.\<close>

definition forward_ok ::
  "(node_id \<Rightarrow> (node_id \<times> duration) list) \<Rightarrow> (node_id \<times> duration) list \<Rightarrow> node_id list \<Rightarrow> bool" where
  "forward_ok adj_d ve_d us \<longleftrightarrow>
     (\<forall>u \<in> set us. \<forall>(v, w) \<in> set (adj_d u).
        \<exists>x y. map_of ve_d u = Some x \<and> map_of ve_d v = Some y \<and> x + w \<le> y)"

text \<open>The invariant of the \<open>while queue\<close> loop of \<open>topological_sort\<close>, with \<open>ord\<close> the
  nodes popped so far and \<open>c\<close> the remaining in-degrees.\<close>

definition kahn_inv ::
  "(node_id \<Rightarrow> (node_id \<times> duration) list) \<Rightarrow> node_id list \<Rightarrow> (node_id \<times> duration) list
     \<Rightarrow> (node_id \<Rightarrow> int) \<Rightarrow> node_id list \<Rightarrow> node_id list \<Rightarrow> bool" where
  "kahn_inv adj_d N ve_d c q ord \<longleftrightarrow>
     distinct (ord @ q) \<and> set (ord @ q) \<subseteq> set N \<and>
     (\<forall>v \<in> set N. int (in_count adj_d (filter (\<lambda>u. u \<notin> set ord) N) v) \<le> c v) \<and>
     (\<forall>v \<in> set (ord @ q). c v \<le> 0) \<and>
     fst ` set ve_d = set N \<and>
     forward_ok adj_d ve_d ord"



text \<open>The edges between nodes as a relation; a graph is closed when the edges of its
  nodes lead to nodes, and its in-degrees are exact when each counts precisely the edges
  that come from nodes.\<close>

definition edge_rel :: "graph \<Rightarrow> (node_id \<times> node_id) set" where
  "edge_rel g = {(u, v). u \<in> set (node_ids g) \<and> v \<in> fst ` set (adj g u)}"

definition closed_graph :: "graph \<Rightarrow> bool" where
  "closed_graph g \<longleftrightarrow> (\<forall>u \<in> set (node_ids g). fst ` set (adj g u) \<subseteq> set (node_ids g))"

definition exact_degrees :: "graph \<Rightarrow> bool" where
  "exact_degrees g \<longleftrightarrow>
     (\<forall>v \<in> set (node_ids g). in_degree g v = int (in_count (adj g) (node_ids g) v))"

text \<open>The second invariant of the queue loop, for graphs with exact in-degrees: the
  remaining in-degree is the number of edges from nodes not yet popped, and a node whose
  remaining in-degree is zero has been queued.\<close>

definition kahn_exact ::
  "(node_id \<Rightarrow> (node_id \<times> duration) list) \<Rightarrow> node_id list
     \<Rightarrow> (node_id \<Rightarrow> int) \<Rightarrow> node_id list \<Rightarrow> node_id list \<Rightarrow> bool" where
  "kahn_exact adj_d N c q ord \<longleftrightarrow>
     (\<forall>v \<in> set N. c v = int (in_count adj_d (filter (\<lambda>u. u \<notin> set ord) N) v)) \<and>
     (\<forall>v \<in> set N. c v = 0 \<longrightarrow> v \<in> set (ord @ q))"

text \<open>In the order \<open>ord\<close> every node comes after the sources of its incoming edges.\<close>

definition topo_ok ::
  "(node_id \<Rightarrow> (node_id \<times> duration) list) \<Rightarrow> node_id list \<Rightarrow> node_id list \<Rightarrow> bool" where
  "topo_ok adj_d N ord \<longleftrightarrow>
     (\<forall>pre x post. ord = pre @ x # post \<longrightarrow>
        (\<forall>u \<in> set N. x \<in> fst ` set (adj_d u) \<longrightarrow> u \<in> set pre))"

text \<open>The graphs built through the interface of the class.\<close>

inductive built :: "graph \<Rightarrow> bool" where
  built_init: "built (init k n)"
| built_add_node: "built g \<Longrightarrow> built (add_node g node_id node_name)"
| built_add_edge: "built g \<Longrightarrow> built (add_edge g start_node end_node d)"


text \<open>Two small graphs: a chain with a shortcut, \<open>A \<rightarrow> B \<rightarrow> C\<close> (5 and 3 hours)
  and \<open>A \<rightarrow> C\<close> (2 hours), and the two-node cycle \<open>A \<rightarrow> B \<rightarrow> A\<close>.\<close>

definition chain_graph :: graph where
  "chain_graph =
     add_edge (add_edge (add_edge
       (add_node (add_node (add_node (init (Some ''P'') (Some ''demo''))
          ''A'' (TaskStartName (Some ''a''))) ''B'' (TaskStartName (Some ''b'')))
          ''C'' (TaskEndName (Some ''b'')))
       ''A'' ''B'' 5) ''B'' ''C'' 3) ''A'' ''C'' 2"

definition cycle_graph :: graph where
  "cycle_graph =
     add_edge (add_edge
       (add_node (add_node (init (Some ''P'') (Some ''demo''))
          ''A'' (TaskStartName (Some ''a''))) ''B'' (TaskStartName (Some ''b'')))
       ''A'' ''B'' 1) ''B'' ''A'' 1"

definition chain_result :: graph where
  "chain_result =
     chain_graph\<lparr> ve := [(''A'', 0), (''B'', 5), (''C'', 8)],
                  vl := [(''A'', 0), (''B'', 5), (''C'', 8)],
                  critical_path := [(''A'', ''B'', 5), (''B'', ''C'', 3)] \<rparr>"

subsection \<open>Predicates on built graphs\<close>

text \<open>The edge from \<open>u\<close> to \<open>v\<close> exists with duration zero (the entry that a search of
  the adjacency list finds first).\<close>

definition zero_edge :: "graph \<Rightarrow> node_id \<Rightarrow> node_id \<Rightarrow> bool" where
  "zero_edge g u v \<longleftrightarrow> map_of (adj g u) v = Some 0"

text \<open>The task with key \<open>k\<close> is wired neither to the project start nor to the project
  end of the project \<open>pk\<close>.\<close>

definition unwired :: "graph \<Rightarrow> string option \<Rightarrow> string \<Rightarrow> bool" where
  "unwired g pk k \<longleftrightarrow>
     \<not> has_edge g (fmt pk @ ''_start'') (k @ ''_start'') \<and>
     \<not> has_edge g (k @ ''_end'') (fmt pk @ ''_end'')"

subsection \<open>Sample inputs\<close>

text \<open>A calendar that knows the days from Monday 2025-06-02 to Monday 2025-06-09 with
  their ordinals, and a task with no field set.\<close>

definition june_2025 :: "(string \<times> int) list" where
  "june_2025 =
     [(''2025-06-02'', 739404), (''2025-06-03'', 739405), (''2025-06-04'', 739406),
      (''2025-06-05'', 739407), (''2025-06-06'', 739408), (''2025-06-07'', 739409),
      (''2025-06-08'', 739410), (''2025-06-09'', 739411)]"

definition demo_calendar :: calendar where
  "demo_calendar =
     \<lparr> strptime = map_of june_2025,
       strftime = (\<lambda>d. case map_of (map (\<lambda>(s, n). (n, s)) june_2025) d of
                          Some s \<Rightarrow> s | None \<Rightarrow> []) \<rparr>"

definition blank_task :: task where
  "blank_task =
     \<lparr> key = None, summary = None, isSubtask = None, subtasks = [], predecessors = None,
       plan_start = None, plan_end = None, actual_start = None, actual_end = None,
       aggregatetimeoriginalestimate = None, keytask = None \<rparr>"

text \<open>The parent \<open>P\<close> (estimate 10 hours) with the subtasks \<open>S1\<close> (4 hours, no predecessor)
  and \<open>S2\<close> (4 hours, after \<open>S1\<close>).\<close>

definition parent_tasks :: "task list" where
  "parent_tasks =
     [blank_task\<lparr> key := Some ''P'', isSubtask := Some False, subtasks := [''S1'', ''S2''],
                  predecessors := Some [], aggregatetimeoriginalestimate := Some 36000 \<rparr>,
      blank_task\<lparr> key := Some ''S1'', isSubtask := Some True, predecessors := Some [],
                  aggregatetimeoriginalestimate := Some 14400 \<rparr>,
      blank_task\<lparr> key := Some ''S2'', isSubtask := Some True, predecessors := Some [''S1''],
                  aggregatetimeoriginalestimate := Some 14400 \<rparr>]"

text \<open>A task planned to start on Wednesday 2025-06-04 whose two end dates are on the
  Monday and the Tuesday before, with an estimate of two hours.\<close>

definition backwards_task :: task where
  "backwards_task =
     blank_task\<lparr> key := Some ''T'', isSubtask := Some False, predecessors := Some [],
                 plan_start := Some ''2025-06-04T09:00:00'', plan_end := Some ''2025-06-03'',
                 actual_end := Some ''2025-06-02'',
                 aggregatetimeoriginalestimate := Some 7200 \<rparr>"

text \<open>A task without the field \<open>isSubtask\<close>, without predecessors, that nobody names as a
  predecessor.\<close>

definition loose_tasks :: "task list" where
  "loose_tasks =
     [blank_task\<lparr> key := Some ''L'', predecessors := Some [],
                  aggregatetimeoriginalestimate := Some 3600 \<rparr>]"

text \<open>A parent whose only subtask has neither dates nor estimate.\<close>

definition unresolved_tasks :: "task list" where
  "unresolved_tasks =
     [blank_task\<lparr> key := Some ''P'', isSubtask := Some False, subtasks := [''S''],
                  predecessors := Some [], aggregatetimeoriginalestimate := Some 3600 \<rparr>,
      blank_task\<lparr> key := Some ''S'', isSubtask := Some True, predecessors := Some [] \<rparr>]"

subsection \<open>Predicates on annotated tasks\<close>

text \<open>The task with \<open>keytask\<close> set (the source stores the string \<open>true\<close>), and the task
  keys that the annotator derives from a list of edges: the source ids of the edges of
  positive duration, without the suffix \<open>_start\<close>.\<close>

definition flagged :: "task \<Rightarrow> task" where
  "flagged t = t\<lparr> keytask := Some ''true'' \<rparr>"

definition positive_sources :: "(node_id \<times> node_id \<times> duration) list \<Rightarrow> string set" where
  "positive_sources es = {remove_suffix u ''_start'' | u v w. (u, v, w) \<in> set es \<and> 0 < w}"

subsection \<open>Facts about \<open>add_edge\<close>\<close>

lemma overwrite_edge_None: "overwrite_edge e d es = None \<longleftrightarrow> e \<notin> fst ` set es"
  by (induction es) (force split: if_splits)+

lemma overwrite_edge_Some: "overwrite_edge e d es = Some es' \<Longrightarrow> e \<in> fst ` set es"
  using overwrite_edge_None[of e d es] by auto

lemma overwrite_edge_keys:
  "overwrite_edge e d es = Some es' \<Longrightarrow> map fst es' = map fst es"
  by (induction es arbitrary: es') (auto split: if_splits)

lemma overwrite_edge_map_of:
  "overwrite_edge e d es = Some es' \<Longrightarrow> map_of es' = (map_of es)(e \<mapsto> d)"
  by (induction es arbitrary: es') (auto split: if_splits simp: fun_upd_twist)

lemma overwrite_edge_filter:
  "overwrite_edge e d es = Some es' \<Longrightarrow> distinct (map fst es) \<Longrightarrow>
     filter (\<lambda>x. fst x = e) es' = [(e, d)]"
proof (induction es arbitrary: es')
  case Nil
  then show ?case by simp
next
  case (Cons x xs)
  obtain t w where x: "x = (t, w)" by (cases x)
  show ?case
  proof (cases "t = e")
    case True
    with Cons.prems x have "es' = (e, d) # xs" and "e \<notin> fst ` set xs" by auto
    then show ?thesis by (auto simp: filter_empty_conv)
  next
    case False
    with Cons.prems x obtain ys where ys: "overwrite_edge e d xs = Some ys" "es' = (t, w) # ys"
      by auto
    with Cons.IH[of ys] Cons.prems False show ?thesis by simp
  qed
qed

lemma adj_add_edge_other: "u \<noteq> a \<Longrightarrow> adj (add_edge g a b d) u = adj g u"
  by (simp add: add_edge_def split: option.splits)

lemma keys_add_edge:
  "map fst (adj (add_edge g a b d) a) =
     (if b \<in> fst ` set (adj g a) then map fst (adj g a) else map fst (adj g a) @ [b])"
  by (auto simp: add_edge_def overwrite_edge_None overwrite_edge_keys
           dest: overwrite_edge_Some split: option.splits)

lemma map_of_add_edge:
  "map_of (adj (add_edge g a b d) u) v =
     (if u = a \<and> v = b then Some d else map_of (adj g u) v)"
proof (cases "overwrite_edge b d (adj g a)")
  case None
  then have nb: "map_of (adj g a) b = None"
    by (simp add: overwrite_edge_None map_of_eq_None_iff)
  have "\<And>x. map_of (adj g a @ [(b, d)]) x = (if x = b then Some d else map_of (adj g a) x)"
    using nb by (auto simp: map_add_def split: option.splits)
  with None show ?thesis by (simp add: add_edge_def del: map_of_append)
next
  case (Some es)
  then show ?thesis by (simp add: add_edge_def overwrite_edge_map_of)
qed

lemma in_degree_add_edge:
  "in_degree (add_edge g a b d) v =
     (if v = b \<and> b \<notin> fst ` set (adj g a) then in_degree g v + 1 else in_degree g v)"
  by (auto simp: add_edge_def overwrite_edge_None dest: overwrite_edge_Some split: option.splits)

lemma nodes_add_edge [simp]: "nodes (add_edge g a b d) = nodes g"
  by (simp add: add_edge_def split: option.splits)

lemma no_parallel_init: "no_parallel (init k n)"
  by (simp add: no_parallel_def init_def)

lemma no_parallel_add_node: "no_parallel g \<Longrightarrow> no_parallel (add_node g i n)"
  by (simp add: no_parallel_def add_node_def)

lemma no_parallel_add_edge: "no_parallel g \<Longrightarrow> no_parallel (add_edge g a b d)"
  unfolding no_parallel_def
proof
  fix u assume h: "\<forall>u. distinct (map fst (adj g u))"
  show "distinct (map fst (adj (add_edge g a b d) u))"
  proof (cases "u = a")
    case True
    with h show ?thesis by (auto simp: keys_add_edge)
  next
    case False
    with h show ?thesis by (simp add: adj_add_edge_other)
  qed
qed

lemma edges_between_add_edge:
  assumes "distinct (map fst (adj g a))"
  shows "edges_between (add_edge g a b d) a b = [(b, d)]"
proof (cases "overwrite_edge b d (adj g a)")
  case None
  then have "b \<notin> fst ` set (adj g a)" by (simp add: overwrite_edge_None)
  then have "filter (\<lambda>e. fst e = b) (adj g a) = []" by (auto simp: filter_empty_conv)
  with None show ?thesis by (simp add: edges_between_def add_edge_def)
next
  case (Some es)
  with assms show ?thesis
    by (simp add: edges_between_def add_edge_def overwrite_edge_filter)
qed

subsection \<open>Duplicate edge insertion\<close>

text \<open>
  Claim C2. In a graph without parallel edges (every graph built by \<open>add_node\<close> and
  \<open>add_edge\<close>), adding the edge \<open>(A, B, d1)\<close> and then \<open>(A, B, d2)\<close> leaves exactly
  one edge from \<open>A\<close> to \<open>B\<close>, with duration \<open>d2\<close>; the second insertion does not touch
  the in-degree of \<open>B\<close>, the first raises it by one exactly when the edge is new, and the
  graph still has no parallel edge.
\<close>

theorem add_edge_twice_overwrites:
  assumes "no_parallel g"
  shows "edges_between (add_edge (add_edge g A B d1) A B d2) A B = [(B, d2)]
       \<and> in_degree (add_edge (add_edge g A B d1) A B d2) B = in_degree (add_edge g A B d1) B
       \<and> in_degree (add_edge g A B d1) B = in_degree g B + (if has_edge g A B then 0 else 1)
       \<and> no_parallel (add_edge (add_edge g A B d1) A B d2)"
proof -
  let ?g1 = "add_edge g A B d1"
  have np1: "no_parallel ?g1" using assms by (rule no_parallel_add_edge)
  then have "distinct (map fst (adj ?g1 A))" by (simp add: no_parallel_def)
  then have e: "edges_between (add_edge ?g1 A B d2) A B = [(B, d2)]"
    by (rule edges_between_add_edge)
  have "B \<in> fst ` set (adj ?g1 A)"
    using keys_add_edge[of g A B d1] by (metis (no_types, lifting) in_set_conv_decomp list.set_map)
  then have d2: "in_degree (add_edge ?g1 A B d2) B = in_degree ?g1 B"
    by (simp add: in_degree_add_edge)
  have d1: "in_degree ?g1 B = in_degree g B + (if has_edge g A B then 0 else 1)"
    by (simp add: in_degree_add_edge has_edge_def)
  from e d2 d1 np1 show ?thesis by (simp add: no_parallel_add_edge)
qed

theorem add_edge_twice_overwrites_witness:
  "no_parallel (init (Some ''P'') (Some ''p''))
   \<and> edges_between (add_edge (add_edge (init (Some ''P'') (Some ''p'')) ''A'' ''B'' 5) ''A'' ''B'' 8)
        ''A'' ''B'' = [(''B'', 8)]
   \<and> in_degree (add_edge (add_edge (init (Some ''P'') (Some ''p'')) ''A'' ''B'' 5) ''A'' ''B'' 8) ''B'' = 1"
proof -
  have h: "no_parallel (init (Some ''P'') (Some ''p''))" by (rule no_parallel_init)
  have i: "in_degree (init (Some ''P'') (Some ''p'')) ''B'' = 0"
    and e: "\<not> has_edge (init (Some ''P'') (Some ''p'')) ''A'' ''B''"
    by (simp_all add: init_def has_edge_def)
  from add_edge_twice_overwrites[OF h, of "''A''" "''B''" 5 8] h i e show ?thesis by simp
qed

subsection \<open>The forward pass: facts about \<open>relax\<close> and the queue loop\<close>

lemma relax_keys:
  "relax u es (ve_d, c, q) = Inr (ve_d', c', q') \<Longrightarrow> fst ` set ve_d' = fst ` set ve_d"
  using relax_measure by blast

lemma relax_targets:
  "relax u es (ve_d, c, q) = Inr (ve_d', c', q') \<Longrightarrow> fst ` set es \<subseteq> fst ` set ve_d"
proof (induction es arbitrary: ve_d c q)
  case Nil
  then show ?case by simp
next
  case (Cons e es)
  obtain v w where e: "e = (v, w)" by (cases e)
  from Cons.prems e obtain x y where x: "map_of ve_d v = Some x" and y: "map_of ve_d u = Some y"
    by (auto split: option.splits)
  define ve1 where "ve1 = AList.update v (max x (y + w)) ve_d"
  define c1 where "c1 = c(v := c v - 1)"
  define q1 where "q1 = (if c1 v = 0 then q @ [v] else q)"
  from Cons.prems e x y have r: "relax u es (ve1, c1, q1) = Inr (ve_d', c', q')"
    by (simp add: ve1_def c1_def q1_def Let_def)
  have vin: "v \<in> fst ` set ve_d" using x by (metis map_of_eq_None_iff option.distinct(1))
  have k1: "fst ` set ve1 = fst ` set ve_d"
    using vin by (auto simp: ve1_def dom_update)
  from Cons.IH[OF r] k1 vin e show ?case by simp
qed

lemma relax_cnt:
  "relax u es (ve_d, c, q) = Inr (ve_d', c', q') \<Longrightarrow>
     c' v = c v - int (length (filter (\<lambda>e. fst e = v) es))"
proof (induction es arbitrary: ve_d c q)
  case Nil
  then show ?case by simp
next
  case (Cons e es)
  obtain t w where e: "e = (t, w)" by (cases e)
  from Cons.prems e obtain x y where x: "map_of ve_d t = Some x" and y: "map_of ve_d u = Some y"
    by (auto split: option.splits)
  define ve1 where "ve1 = AList.update t (max x (y + w)) ve_d"
  define c1 where "c1 = c(t := c t - 1)"
  define q1 where "q1 = (if c1 t = 0 then q @ [t] else q)"
  from Cons.prems e x y have r: "relax u es (ve1, c1, q1) = Inr (ve_d', c', q')"
    by (simp add: ve1_def c1_def q1_def Let_def)
  from Cons.IH[OF r] e show ?case by (simp add: c1_def)
qed

lemma relax_queue:
  "relax u es (ve_d, c, q) = Inr (ve_d', c', q') \<Longrightarrow>
     \<exists>new. q' = q @ new \<and> distinct new \<and>
        (\<forall>v \<in> set new. v \<in> fst ` set es \<and> 0 < c v \<and> c' v \<le> 0)"
proof (induction es arbitrary: ve_d c q)
  case Nil
  then show ?case by simp
next
  case (Cons e es)
  obtain t w where e: "e = (t, w)" by (cases e)
  from Cons.prems e obtain x y where x: "map_of ve_d t = Some x" and y: "map_of ve_d u = Some y"
    by (auto split: option.splits)
  define ve1 where "ve1 = AList.update t (max x (y + w)) ve_d"
  define c1 where "c1 = c(t := c t - 1)"
  define q1 where "q1 = (if c1 t = 0 then q @ [t] else q)"
  from Cons.prems e x y have r: "relax u es (ve1, c1, q1) = Inr (ve_d', c', q')"
    by (simp add: ve1_def c1_def q1_def Let_def)
  from Cons.IH[OF r] obtain new where new: "q' = q1 @ new" "distinct new"
    "\<forall>v \<in> set new. v \<in> fst ` set es \<and> 0 < c1 v \<and> c' v \<le> 0" by blast
  have le: "c' t \<le> c1 t" using relax_cnt[OF r, of t] by simp
  have c1le: "\<And>v. c1 v \<le> c v" by (simp add: c1_def)
  have old: "\<And>v. v \<in> set new \<Longrightarrow> v \<in> fst ` set (e # es) \<and> 0 < c v \<and> c' v \<le> 0"
  proof -
    fix v assume "v \<in> set new"
    with new(3) have a: "v \<in> fst ` set es" "0 < c1 v" "c' v \<le> 0" by auto
    from a(2) c1le[of v] have "0 < c v" by linarith
    with a show "v \<in> fst ` set (e # es) \<and> 0 < c v \<and> c' v \<le> 0" by simp
  qed
  show ?case
  proof (cases "c1 t = 0")
    case True
    then have tn: "t \<notin> set new" using new(3) by auto
    have "q' = q @ (t # new)" using new(1) True by (simp add: q1_def)
    moreover have "distinct (t # new)" using tn new(2) by simp
    moreover have "t \<in> fst ` set (e # es) \<and> 0 < c t \<and> c' t \<le> 0"
    proof -
      from True have "c t = 1" by (simp add: c1_def)
      moreover from le True have "c' t \<le> 0" by simp
      ultimately show ?thesis using e by simp
    qed
    ultimately show ?thesis using old by (intro exI[of _ "t # new"]) simp
  next
    case False
    then have "q' = q @ new" using new(1) by (simp add: q1_def)
    then show ?thesis using new(2) old by (intro exI[of _ new]) simp
  qed
qed

lemma relax_ve_other:
  "relax u es (ve_d, c, q) = Inr (ve_d', c', q') \<Longrightarrow> x \<notin> fst ` set es \<Longrightarrow>
     map_of ve_d' x = map_of ve_d x"
proof (induction es arbitrary: ve_d c q)
  case Nil
  then show ?case by simp
next
  case (Cons e es)
  obtain t w where e: "e = (t, w)" by (cases e)
  from Cons.prems e obtain a y where a: "map_of ve_d t = Some a" and y: "map_of ve_d u = Some y"
    by (auto split: option.splits)
  define ve1 where "ve1 = AList.update t (max a (y + w)) ve_d"
  define c1 where "c1 = c(t := c t - 1)"
  define q1 where "q1 = (if c1 t = 0 then q @ [t] else q)"
  from Cons.prems e a y have r: "relax u es (ve1, c1, q1) = Inr (ve_d', c', q')"
    by (simp add: ve1_def c1_def q1_def Let_def)
  from Cons.prems(2) e have "x \<noteq> t" "x \<notin> fst ` set es" by auto
  with Cons.IH[OF r] show ?case by (simp add: ve1_def update_conv')
qed

lemma relax_ve_mono:
  "relax u es (ve_d, c, q) = Inr (ve_d', c', q') \<Longrightarrow> map_of ve_d x = Some a \<Longrightarrow>
     \<exists>b. map_of ve_d' x = Some b \<and> a \<le> b"
proof (induction es arbitrary: ve_d c q a)
  case Nil
  then show ?case by simp
next
  case (Cons e es)
  obtain t w where e: "e = (t, w)" by (cases e)
  from Cons.prems e obtain z y where z: "map_of ve_d t = Some z" and y: "map_of ve_d u = Some y"
    by (auto split: option.splits)
  define ve1 where "ve1 = AList.update t (max z (y + w)) ve_d"
  define c1 where "c1 = c(t := c t - 1)"
  define q1 where "q1 = (if c1 t = 0 then q @ [t] else q)"
  from Cons.prems e z y have r: "relax u es (ve1, c1, q1) = Inr (ve_d', c', q')"
    by (simp add: ve1_def c1_def q1_def Let_def)
  have "\<exists>a1. map_of ve1 x = Some a1 \<and> a \<le> a1"
    using Cons.prems(2) z by (auto simp: ve1_def update_conv')
  then obtain a1 where a1: "map_of ve1 x = Some a1" "a \<le> a1" by blast
  from Cons.IH[OF r a1(1)] a1(2) show ?case by force
qed

lemma relax_ve_edge:
  "relax u es (ve_d, c, q) = Inr (ve_d', c', q') \<Longrightarrow> u \<notin> fst ` set es \<Longrightarrow>
     map_of ve_d u = Some yu \<Longrightarrow> (v, w) \<in> set es \<Longrightarrow>
     \<exists>y. map_of ve_d' v = Some y \<and> yu + w \<le> y"
proof (induction es arbitrary: ve_d c q)
  case Nil
  then show ?case by simp
next
  case (Cons e es)
  obtain t w1 where e: "e = (t, w1)" by (cases e)
  from Cons.prems e obtain z where z: "map_of ve_d t = Some z"
    by (auto split: option.splits)
  define ve1 where "ve1 = AList.update t (max z (yu + w1)) ve_d"
  define c1 where "c1 = c(t := c t - 1)"
  define q1 where "q1 = (if c1 t = 0 then q @ [t] else q)"
  from Cons.prems e z have r: "relax u es (ve1, c1, q1) = Inr (ve_d', c', q')"
    by (simp add: ve1_def c1_def q1_def Let_def)
  from Cons.prems(2) e have ut: "u \<noteq> t" and ues: "u \<notin> fst ` set es" by auto
  have u1: "map_of ve1 u = Some yu" using ut Cons.prems(3) by (simp add: ve1_def update_conv')
  show ?case
  proof (cases "(v, w) \<in> set es")
    case True
    from Cons.IH[OF r ues u1 True] show ?thesis .
  next
    case False
    with Cons.prems(4) e have vw: "v = t" "w = w1" by auto
    have "map_of ve1 v = Some (max z (yu + w))" using vw by (simp add: ve1_def update_conv')
    from relax_ve_mono[OF r this] show ?thesis by force
  qed
qed


lemma sum_list_filter_remove:
  "distinct N \<Longrightarrow> u \<in> set N \<Longrightarrow> P u \<Longrightarrow>
     sum_list (map f (filter P N)) = sum_list (map f (filter (\<lambda>x. P x \<and> x \<noteq> u) N)) + (f u :: nat)"
proof (induction N)
  case Nil
  then show ?case by simp
next
  case (Cons a N)
  show ?case
  proof (cases "a = u")
    case True
    with Cons.prems have "u \<notin> set N" by simp
    then have "filter (\<lambda>x. P x \<and> x \<noteq> u) N = filter P N"
      by (intro filter_cong) auto
    with True Cons.prems show ?thesis by simp
  next
    case False
    with Cons.prems have "distinct N" "u \<in> set N" by auto
    from Cons.IH[OF this Cons.prems(3)] False show ?thesis by simp
  qed
qed

lemma in_count_remove:
  assumes "distinct N" "u \<in> set N" "u \<notin> set ord"
  shows "in_count adj_d (filter (\<lambda>x. x \<notin> set ord) N) v =
         in_count adj_d (filter (\<lambda>x. x \<notin> set (ord @ [u])) N) v
           + length (filter (\<lambda>e. fst e = v) (adj_d u))"
proof -
  have "filter (\<lambda>x. x \<notin> set (ord @ [u])) N = filter (\<lambda>x. x \<notin> set ord \<and> x \<noteq> u) N"
    by (intro filter_cong) auto
  then show ?thesis
    unfolding in_count_def
    using sum_list_filter_remove[OF assms(1,2), of "\<lambda>x. x \<notin> set ord"
        "\<lambda>u. length (filter (\<lambda>e. fst e = v) (adj_d u))"] assms(3)
    by simp
qed

lemma in_count_zero:
  assumes "in_count adj_d us v = 0" "u \<in> set us"
  shows "v \<notin> fst ` set (adj_d u)"
proof -
  from assms have "length (filter (\<lambda>e. fst e = v) (adj_d u)) = 0"
    unfolding in_count_def by auto
  then have "filter (\<lambda>e. fst e = v) (adj_d u) = []" by simp
  then show ?thesis by (auto simp: filter_empty_conv)
qed

lemma kahn_no_edge_into_visited:
  assumes inv: "kahn_inv adj_d N ve_d c q ord"
    and v: "v \<in> set (ord @ q)" and u: "u \<in> set N" "u \<notin> set ord"
  shows "v \<notin> fst ` set (adj_d u)"
proof -
  from inv v have vN: "v \<in> set N" and cv: "c v \<le> 0" unfolding kahn_inv_def by auto
  from inv vN have "int (in_count adj_d (filter (\<lambda>u. u \<notin> set ord) N) v) \<le> c v"
    unfolding kahn_inv_def by blast
  with cv have "in_count adj_d (filter (\<lambda>u. u \<notin> set ord) N) v = 0" by simp
  moreover from u have "u \<in> set (filter (\<lambda>u. u \<notin> set ord) N)" by simp
  ultimately show ?thesis by (rule in_count_zero)
qed

lemma kahn_step:
  assumes inv: "kahn_inv adj_d N ve_d c (u # q) ord" and dN: "distinct N"
    and r: "relax u (adj_d u) (ve_d, c, q) = Inr (ve_d', c', q')"
  shows "kahn_inv adj_d N ve_d' c' q' (ord @ [u])"
proof -
  from inv have dist: "distinct (ord @ u # q)" and sub: "set (ord @ u # q) \<subseteq> set N"
    and cnt: "\<forall>v \<in> set N. int (in_count adj_d (filter (\<lambda>u. u \<notin> set ord) N) v) \<le> c v"
    and nonpos: "\<forall>v \<in> set (ord @ u # q). c v \<le> 0"
    and keys: "fst ` set ve_d = set N" and fwd: "forward_ok adj_d ve_d ord"
    unfolding kahn_inv_def by auto
  from dist sub have uN: "u \<in> set N" and uo: "u \<notin> set ord" by auto
  have fresh: "\<And>v. v \<in> set (ord @ u # q) \<Longrightarrow> v \<notin> fst ` set (adj_d u)"
    using kahn_no_edge_into_visited[OF inv _ uN uo] by blast
  from relax_queue[OF r] obtain new where new: "q' = q @ new" "distinct new"
    "\<forall>v \<in> set new. v \<in> fst ` set (adj_d u) \<and> 0 < c v \<and> c' v \<le> 0" by blast
  have keys': "fst ` set ve_d' = set N" using relax_keys[OF r] keys by simp
  have tg: "fst ` set (adj_d u) \<subseteq> set N" using relax_targets[OF r] keys by simp
  have cle: "\<And>v. c' v \<le> c v" using relax_cnt[OF r] by simp
  \<comment> \<open>the visited nodes stay distinct and inside the node set\<close>
  have newdisj: "set new \<inter> set (ord @ u # q) = {}" using new(3) fresh by blast
  have d': "distinct ((ord @ [u]) @ q')" using dist new(1,2) newdisj by auto
  have s': "set ((ord @ [u]) @ q') \<subseteq> set N" using sub new(1,3) tg by auto
  \<comment> \<open>the remaining in-degree still bounds the edges from unvisited nodes\<close>
  have c': "\<forall>v \<in> set N. int (in_count adj_d (filter (\<lambda>x. x \<notin> set (ord @ [u])) N) v) \<le> c' v"
  proof
    fix v assume "v \<in> set N"
    with cnt have "int (in_count adj_d (filter (\<lambda>u. u \<notin> set ord) N) v) \<le> c v" by blast
    with in_count_remove[OF dN uN uo, of adj_d v] relax_cnt[OF r, of v]
    show "int (in_count adj_d (filter (\<lambda>x. x \<notin> set (ord @ [u])) N) v) \<le> c' v" by simp
  qed
  have n': "\<forall>v \<in> set ((ord @ [u]) @ q'). c' v \<le> 0"
  proof
    fix v assume "v \<in> set ((ord @ [u]) @ q')"
    then have "v \<in> set (ord @ u # q) \<or> v \<in> set new" using new(1) by auto
    then show "c' v \<le> 0"
    proof
      assume "v \<in> set (ord @ u # q)"
      with nonpos have "c v \<le> 0" by blast
      with cle[of v] show ?thesis by linarith
    next
      assume "v \<in> set new"
      with new(3) show ?thesis by blast
    qed
  qed
  \<comment> \<open>the edges of visited nodes are relaxed for good\<close>
  have f': "forward_ok adj_d ve_d' (ord @ [u])"
    unfolding forward_ok_def
  proof (intro ballI, clarify)
    fix a v w assume a: "a \<in> set (ord @ [u])" and e: "(v, w) \<in> set (adj_d a)"
    have aV: "a \<in> set (ord @ u # q)" using a by auto
    then have same: "map_of ve_d' a = map_of ve_d a" using relax_ve_other[OF r] fresh by blast
    show "\<exists>x y. map_of ve_d' a = Some x \<and> map_of ve_d' v = Some y \<and> x + w \<le> y"
    proof (cases "a = u")
      case True
      from uN keys obtain yu where yu: "map_of ve_d u = Some yu"
        by (metis domD dom_map_of_conv_image_fst)
      from fresh[of u] have "u \<notin> fst ` set (adj_d u)" by simp
      from relax_ve_edge[OF r this yu] e True obtain y where "map_of ve_d' v = Some y" "yu + w \<le> y"
        by blast
      with same yu True show ?thesis by simp
    next
      case False
      with a have "a \<in> set ord" by simp
      with fwd e obtain x y where xy: "map_of ve_d a = Some x" "map_of ve_d v = Some y" "x + w \<le> y"
        unfolding forward_ok_def by blast
      from relax_ve_mono[OF r xy(2)] obtain b where "map_of ve_d' v = Some b" "y \<le> b" by blast
      with xy same show ?thesis by force
    qed
  qed
  from d' s' c' n' keys' f' show ?thesis unfolding kahn_inv_def by blast
qed

lemma topo_loop_inv:
  "kahn_inv adj_d N ve_d c q ord \<Longrightarrow> distinct N \<Longrightarrow>
   topo_loop adj_d ve_d c q ord = Inr (ve_d', ord') \<Longrightarrow>
     distinct ord' \<and> set ord' \<subseteq> set N \<and> fst ` set ve_d' = set N \<and> forward_ok adj_d ve_d' ord'"
proof (induction adj_d ve_d c q ord rule: topo_loop.induct)
  case (1 adj_d ve_d in_degree_copy topo_order)
  then show ?case by (simp add: kahn_inv_def)
next
  case (2 adj_d ve_d in_degree_copy u queue topo_order)
  from "2.prems"(3) obtain ve1 c1 q1 where
    r: "relax u (adj_d u) (ve_d, in_degree_copy, queue) = Inr (ve1, c1, q1)"
    and l: "topo_loop adj_d ve1 c1 q1 (topo_order @ [u]) = Inr (ve_d', ord')"
    by (auto split: sum.splits)
  from kahn_step[OF "2.prems"(1,2) r] have "kahn_inv adj_d N ve1 c1 q1 (topo_order @ [u])" .
  from "2.IH"[OF r refl refl this "2.prems"(2) l] show ?case .
qed



lemma keys_fold_update:
  "fst ` set (fold (\<lambda>node d. AList.update node c d) ns d) = fst ` set d \<union> set ns"
  by (induction ns arbitrary: d) (auto simp: dom_update)

lemma map_of_in_keys: "map_of d x = Some a \<Longrightarrow> x \<in> fst ` set d"
  by (metis map_of_eq_None_iff option.distinct(1))

lemma in_keys_map_of: "x \<in> fst ` set d \<Longrightarrow> \<exists>a. map_of d x = Some a"
  by (metis map_of_eq_None_iff option.exhaust)



lemma relax_back_keys:
  "relax_back u es vl_d = Inr vl_d' \<Longrightarrow> fst ` set vl_d' = fst ` set vl_d"
proof (induction es arbitrary: vl_d)
  case Nil
  then show ?case by simp
next
  case (Cons e es)
  obtain v w where e: "e = (v, w)" by (cases e)
  from Cons.prems e obtain a b where a: "map_of vl_d u = Some a" and b: "map_of vl_d v = Some b"
    and r: "relax_back u es (AList.update u (min a (b - w)) vl_d) = Inr vl_d'"
    by (auto split: option.splits)
  from Cons.IH[OF r] map_of_in_keys[OF a] show ?case by (auto simp: dom_update)
qed


lemma backward_pass_keys:
  "backward_pass adj_d us vl_d = Inr vl_d' \<Longrightarrow> fst ` set vl_d' = fst ` set vl_d"
proof (induction us arbitrary: vl_d)
  case Nil
  then show ?case by simp
next
  case (Cons u us)
  from Cons.prems obtain vl1 where r: "relax_back u (adj_d u) vl_d = Inr vl1"
    and b: "backward_pass adj_d us vl1 = Inr vl_d'"
    by (auto split: sum.splits)
  from Cons.IH[OF b] relax_back_keys[OF r] show ?case by simp
qed





lemma topological_sort_sound:
  assumes wf: "wf_graph g" and ts: "topological_sort g = Inr (g1, ord)"
  shows "g1 = g\<lparr> ve := ve g1 \<rparr>" "distinct ord" "set ord \<subseteq> set (node_ids g)"
    "fst ` set (ve g1) = set (node_ids g)" "forward_ok (adj g) (ve g1) ord"
proof -
  let ?N = "node_ids g"
  let ?q = "filter (\<lambda>node. in_degree g node = 0) ?N"
  let ?ve0 = "fold (\<lambda>node d. AList.update node 0 d) ?N (ve g)"
  from ts obtain ve1 where l: "topo_loop (adj g) ?ve0 (in_degree g) ?q [] = Inr (ve1, ord)"
    and g1: "g1 = g\<lparr> ve := ve1 \<rparr>"
    unfolding topological_sort_def node_ids_def Let_def by (auto split: sum.splits)
  from wf have dN: "distinct ?N" and vk: "fst ` set (ve g) \<subseteq> set ?N"
    and deg: "\<forall>v \<in> set ?N. int (in_count (adj g) ?N v) \<le> in_degree g v"
    unfolding wf_graph_def by auto
  have "kahn_inv (adj g) ?N ?ve0 (in_degree g) ?q []"
    unfolding kahn_inv_def forward_ok_def using dN vk deg by (auto simp: keys_fold_update)
  from topo_loop_inv[OF this dN l] g1
  show "g1 = g\<lparr> ve := ve g1 \<rparr>" "distinct ord" "set ord \<subseteq> set (node_ids g)"
    "fst ` set (ve g1) = set (node_ids g)" "forward_ok (adj g) (ve g1) ord"
    by simp_all
qed


subsection \<open>Graphs built through the interface are well formed\<close>







lemma cycle_graph_built: "built cycle_graph"
  unfolding cycle_graph_def by (intro built.intros)

lemma chain_graph_result:
  "calculate_critical_path chain_graph =
     Inr (chain_result, Some ([(''A'', ''B'', 5), (''B'', ''C'', 3)], 8))"
  by (simp add: calculate_critical_path_def topological_sort_def chain_result_def chain_graph_def
        init_def add_node_def add_edge_def Let_def)

subsection \<open>The topological sort returns on closed graphs\<close>

lemma relax_returns:
  "fst ` set es \<subseteq> fst ` set ve_d \<Longrightarrow> u \<in> fst ` set ve_d \<Longrightarrow>
     \<exists>ve_d' c' q'. relax u es (ve_d, c, q) = Inr (ve_d', c', q')"
proof (induction es arbitrary: ve_d c q)
  case Nil
  then show ?case by simp
next
  case (Cons e es)
  obtain v w where e: "e = (v, w)" by (cases e)
  from Cons.prems e have "v \<in> fst ` set ve_d" by simp
  from in_keys_map_of[OF this] obtain x where x: "map_of ve_d v = Some x" ..
  from in_keys_map_of[OF Cons.prems(2)] obtain y where y: "map_of ve_d u = Some y" ..
  define ve1 where "ve1 = AList.update v (max x (y + w)) ve_d"
  have k: "fst ` set ve1 = fst ` set ve_d"
    using map_of_in_keys[OF x] by (auto simp: ve1_def dom_update)
  from Cons.prems e k have "fst ` set es \<subseteq> fst ` set ve1" "u \<in> fst ` set ve1" by auto
  from Cons.IH[OF this] e x y show ?case by (simp add: ve1_def Let_def)
qed

lemma topo_loop_returns:
  "set q \<subseteq> K \<Longrightarrow> (\<forall>u \<in> K. fst ` set (adj_d u) \<subseteq> K) \<Longrightarrow> K \<subseteq> fst ` set ve_d \<Longrightarrow>
     \<exists>r. topo_loop adj_d ve_d c q ord = Inr r"
proof (induction adj_d ve_d c q ord rule: topo_loop.induct)
  case (1 adj_d ve_d in_degree_copy topo_order)
  then show ?case by simp
next
  case (2 adj_d ve_d in_degree_copy u queue topo_order)
  from "2.prems" have uK: "u \<in> K" and tg: "fst ` set (adj_d u) \<subseteq> K" by auto
  with "2.prems"(3) have "fst ` set (adj_d u) \<subseteq> fst ` set ve_d" "u \<in> fst ` set ve_d" by auto
  from relax_returns[OF this] obtain ve1 c1 q1 where
    r: "relax u (adj_d u) (ve_d, in_degree_copy, queue) = Inr (ve1, c1, q1)" by blast
  from relax_queue[OF r] obtain new where "q1 = queue @ new" "set new \<subseteq> fst ` set (adj_d u)"
    by blast
  with "2.prems"(1) tg have q1: "set q1 \<subseteq> K" by auto
  from relax_keys[OF r] "2.prems"(3) have "K \<subseteq> fst ` set ve1" by simp
  from "2.IH"[OF r refl refl q1 "2.prems"(2) this] r show ?case by simp
qed

text \<open>On a graph whose edges from nodes lead to nodes, \<open>topological_sort\<close> raises nothing
  and (being a total function) returns.\<close>

lemma topological_sort_returns:
  assumes "\<forall>u \<in> set (node_ids g). fst ` set (adj g u) \<subseteq> set (node_ids g)"
  shows "\<exists>g1 ord. topological_sort g = Inr (g1, ord)"
proof -
  let ?N = "node_ids g"
  let ?q = "filter (\<lambda>node. in_degree g node = 0) ?N"
  let ?ve0 = "fold (\<lambda>node d. AList.update node 0 d) ?N (ve g)"
  have "set ?q \<subseteq> set ?N" by auto
  moreover have "set ?N \<subseteq> fst ` set ?ve0" by (simp add: keys_fold_update)
  ultimately obtain r where "topo_loop (adj g) ?ve0 (in_degree g) ?q [] = Inr r"
    using topo_loop_returns[OF _ assms] by blast
  then show ?thesis
    unfolding topological_sort_def node_ids_def Let_def by (cases r) simp
qed

subsection \<open>Cyclic graphs\<close>

text \<open>
  Claim C3. When the topological sort returns an order shorter than the number of nodes,
  \<open>calculate_critical_path\<close> returns the result \<open>None\<close> (no exception) in the state the
  sort left. It cannot hang: \<open>topo_loop\<close> is a total function, its termination proved
  with \<open>topo_measure\<close>. That a cycle makes the order short is lemma
  \<open>cyclic_graph_detected\<close> below.
\<close>

theorem cyclic_graph_no_critical_path:
  assumes "topological_sort g = Inr (g1, topo_order)"
    and "length topo_order < length (nodes g)"
  shows "calculate_critical_path g = Inr (g1, None)"
proof -
  from assms(1) have "nodes g1 = nodes g"
    unfolding topological_sort_def Let_def by (auto split: sum.splits)
  with assms show ?thesis by (simp add: calculate_critical_path_def)
qed

theorem cyclic_graph_no_critical_path_witness:
  "topological_sort cycle_graph = Inr (cycle_graph\<lparr> ve := [(''A'', 0), (''B'', 0)] \<rparr>, [])
   \<and> length ([] :: node_id list) < length (nodes cycle_graph)
   \<and> calculate_critical_path cycle_graph = Inr (cycle_graph\<lparr> ve := [(''A'', 0), (''B'', 0)] \<rparr>, None)"
proof -
  have t: "topological_sort cycle_graph = Inr (cycle_graph\<lparr> ve := [(''A'', 0), (''B'', 0)] \<rparr>, [])"
    by (simp add: topological_sort_def cycle_graph_def init_def add_node_def add_edge_def Let_def)
  have l: "length ([] :: node_id list) < length (nodes cycle_graph)"
    by (simp add: cycle_graph_def init_def add_node_def add_edge_def)
  from cyclic_graph_no_critical_path[OF t l] t l show ?thesis by simp
qed

subsection \<open>Critical edges and event times\<close>






subsection \<open>The solver leaves the graph structure alone\<close>

text \<open>
  Claim C10. \<open>calculate_critical_path\<close>, with the \<open>topological_sort\<close> it runs, writes
  \<open>ve\<close>, \<open>vl\<close> and \<open>critical_path\<close> only: the nodes, the adjacency lists with their
  durations and the in-degree of every node are the same before and after the call.
\<close>

theorem solver_frame:
  assumes "calculate_critical_path g = Inr (g', r)"
  shows "nodes g' = nodes g \<and> adj g' = adj g \<and> in_degree g' = in_degree g
       \<and> g' = g\<lparr> ve := ve g', vl := vl g', critical_path := critical_path g' \<rparr>"
proof -
  from assms obtain g1 ord where ts: "topological_sort g = Inr (g1, ord)"
    unfolding calculate_critical_path_def by (auto split: sum.splits)
  then obtain ve1 where g1: "g1 = g\<lparr> ve := ve1 \<rparr>"
    unfolding topological_sort_def Let_def by (auto split: sum.splits)
  from assms ts have "g' = g1 \<or> (\<exists>vl1 ces. g' = g1\<lparr> vl := vl1, critical_path := ces \<rparr>)"
    unfolding calculate_critical_path_def Let_def by (auto split: sum.splits if_splits)
  with g1 show ?thesis by auto
qed

theorem solver_frame_witness:
  "calculate_critical_path chain_graph =
        Inr (chain_result, Some ([(''A'', ''B'', 5), (''B'', ''C'', 3)], 8))
   \<and> nodes chain_result = nodes chain_graph \<and> adj chain_result = adj chain_graph
   \<and> in_degree chain_result = in_degree chain_graph"
  using solver_frame[OF chain_graph_result] chain_graph_result by simp

subsection \<open>Acyclic graphs are solved, cyclic graphs are detected\<close>

lemma relax_enqueues:
  "relax u es (ve_d, c, q) = Inr (ve_d', c', q') \<Longrightarrow> v \<in> fst ` set es \<Longrightarrow> c' v = 0 \<Longrightarrow>
     v \<in> set q'"
proof (induction es arbitrary: ve_d c q)
  case Nil
  then show ?case by simp
next
  case (Cons e es)
  obtain t w where e: "e = (t, w)" by (cases e)
  from Cons.prems(1) e obtain x y where x: "map_of ve_d t = Some x" and y: "map_of ve_d u = Some y"
    by (auto split: option.splits)
  define ve1 where "ve1 = AList.update t (max x (y + w)) ve_d"
  define c1 where "c1 = c(t := c t - 1)"
  define q1 where "q1 = (if c1 t = 0 then q @ [t] else q)"
  from Cons.prems(1) e x y have r: "relax u es (ve1, c1, q1) = Inr (ve_d', c', q')"
    by (simp add: ve1_def c1_def q1_def Let_def)
  show ?case
  proof (cases "v \<in> fst ` set es")
    case True
    from Cons.IH[OF r True Cons.prems(3)] show ?thesis .
  next
    case False
    with Cons.prems(2) e have vt: "v = t" by auto
    from relax_cnt[OF r, of v] False have "c' v = c1 v"
      by (auto simp: filter_empty_conv)
    with Cons.prems(3) vt have "t \<in> set q1" by (simp add: q1_def)
    moreover from relax_queue[OF r] obtain new where "q' = q1 @ new" by blast
    ultimately show ?thesis using vt by simp
  qed
qed

lemma kahn_exact_step:
  assumes inv: "kahn_inv adj_d N ve_d c (u # q) ord" and ex: "kahn_exact adj_d N c (u # q) ord"
    and dN: "distinct N"
    and r: "relax u (adj_d u) (ve_d, c, q) = Inr (ve_d', c', q')"
  shows "kahn_exact adj_d N c' q' (ord @ [u])"
proof -
  from inv have dist: "distinct (ord @ u # q)" and sub: "set (ord @ u # q) \<subseteq> set N"
    unfolding kahn_inv_def by auto
  from dist sub have uN: "u \<in> set N" and uo: "u \<notin> set ord" by auto
  from relax_queue[OF r] obtain new where new: "q' = q @ new" by blast
  have a: "\<forall>v \<in> set N. c' v = int (in_count adj_d (filter (\<lambda>x. x \<notin> set (ord @ [u])) N) v)"
  proof
    fix v assume "v \<in> set N"
    with ex have "c v = int (in_count adj_d (filter (\<lambda>u. u \<notin> set ord) N) v)"
      unfolding kahn_exact_def by blast
    with in_count_remove[OF dN uN uo, of adj_d v] relax_cnt[OF r, of v]
    show "c' v = int (in_count adj_d (filter (\<lambda>x. x \<notin> set (ord @ [u])) N) v)" by simp
  qed
  have b: "\<forall>v \<in> set N. c' v = 0 \<longrightarrow> v \<in> set ((ord @ [u]) @ q')"
  proof (intro ballI impI)
    fix v assume vN: "v \<in> set N" and z: "c' v = 0"
    show "v \<in> set ((ord @ [u]) @ q')"
    proof (cases "v \<in> fst ` set (adj_d u)")
      case True
      from relax_enqueues[OF r True z] show ?thesis by simp
    next
      case False
      with relax_cnt[OF r, of v] have "c' v = c v" by (auto simp: filter_empty_conv)
      with z ex vN have "v \<in> set (ord @ u # q)" unfolding kahn_exact_def by auto
      with new show ?thesis by auto
    qed
  qed
  from a b show ?thesis unfolding kahn_exact_def by blast
qed

lemma in_count_no_edge:
  "(\<forall>u \<in> set us. v \<notin> fst ` set (adj_d u)) \<Longrightarrow> in_count adj_d us v = 0"
  by (induction us) (auto simp: in_count_def filter_empty_conv)

lemma topo_loop_complete:
  "kahn_inv adj_d N ve_d c q ord \<Longrightarrow> kahn_exact adj_d N c q ord \<Longrightarrow> distinct N \<Longrightarrow>
   wf {(u, v). u \<in> set N \<and> v \<in> fst ` set (adj_d u)} \<Longrightarrow>
   topo_loop adj_d ve_d c q ord = Inr (ve_d', ord') \<Longrightarrow> set N \<subseteq> set ord'"
proof (induction adj_d ve_d c q ord rule: topo_loop.induct)
  case (1 adj_d ve_d in_degree_copy topo_order)
  let ?r = "{(u, v). u \<in> set N \<and> v \<in> fst ` set (adj_d u)}"
  from "1.prems"(5) have o: "ord' = topo_order" by simp
  show ?case
  proof (rule ccontr)
    assume "\<not> set N \<subseteq> set ord'"
    then obtain x where "x \<in> set N - set topo_order" using o by auto
    from wfE_min[OF "1.prems"(4) this] obtain z where
      z: "z \<in> set N - set topo_order" and m: "\<And>y. (y, z) \<in> ?r \<Longrightarrow> y \<notin> set N - set topo_order"
      by blast
    have "\<forall>u \<in> set (filter (\<lambda>u. u \<notin> set topo_order) N). z \<notin> fst ` set (adj_d u)"
      using m by auto
    from in_count_no_edge[OF this] z "1.prems"(2) have "in_degree_copy z = 0"
      unfolding kahn_exact_def by simp
    with "1.prems"(2) z have "z \<in> set (topo_order @ [])" unfolding kahn_exact_def by blast
    with z show False by simp
  qed
next
  case (2 adj_d ve_d in_degree_copy u queue topo_order)
  from "2.prems"(5) obtain ve1 c1 q1 where
    r: "relax u (adj_d u) (ve_d, in_degree_copy, queue) = Inr (ve1, c1, q1)"
    and l: "topo_loop adj_d ve1 c1 q1 (topo_order @ [u]) = Inr (ve_d', ord')"
    by (auto split: sum.splits)
  note i = kahn_step[OF "2.prems"(1,3) r]
  note e = kahn_exact_step[OF "2.prems"(1,2,3) r]
  from "2.IH"[OF r refl refl i e "2.prems"(3,4) l] show ?case .
qed

lemma relax_back_returns:
  "u \<in> fst ` set vl_d \<Longrightarrow> fst ` set es \<subseteq> fst ` set vl_d \<Longrightarrow> \<exists>vl_d'. relax_back u es vl_d = Inr vl_d'"
proof (induction es arbitrary: vl_d)
  case Nil
  then show ?case by simp
next
  case (Cons e es)
  obtain v w where e: "e = (v, w)" by (cases e)
  from in_keys_map_of[OF Cons.prems(1)] obtain a where a: "map_of vl_d u = Some a" ..
  from Cons.prems(2) e have "v \<in> fst ` set vl_d" by simp
  from in_keys_map_of[OF this] obtain b where b: "map_of vl_d v = Some b" ..
  let ?vl1 = "AList.update u (min a (b - w)) vl_d"
  have k: "fst ` set ?vl1 = fst ` set vl_d" using Cons.prems(1) by (auto simp: dom_update)
  with Cons.prems e have "u \<in> fst ` set ?vl1" "fst ` set es \<subseteq> fst ` set ?vl1" by auto
  from Cons.IH[OF this] a b e show ?case by simp
qed

lemma backward_pass_returns:
  "set us \<subseteq> K \<Longrightarrow> (\<forall>u \<in> K. fst ` set (adj_d u) \<subseteq> K) \<Longrightarrow> K \<subseteq> fst ` set vl_d \<Longrightarrow>
     \<exists>vl_d'. backward_pass adj_d us vl_d = Inr vl_d'"
proof (induction us arbitrary: vl_d)
  case Nil
  then show ?case by simp
next
  case (Cons u us)
  from Cons.prems(1) have uK: "u \<in> K" by simp
  with Cons.prems(3) have a: "u \<in> fst ` set vl_d" by blast
  from uK Cons.prems(2,3) have b: "fst ` set (adj_d u) \<subseteq> fst ` set vl_d" by blast
  from relax_back_returns[OF a b] obtain vl1 where r: "relax_back u (adj_d u) vl_d = Inr vl1" ..
  from relax_back_keys[OF r] Cons.prems(3) have "K \<subseteq> fst ` set vl1" by simp
  from Cons.IH[OF _ Cons.prems(2) this] Cons.prems(1) r show ?case by simp
qed

lemma critical_of_node_returns:
  "u \<in> fst ` set ve_d \<Longrightarrow> fst ` set es \<subseteq> fst ` set vl_d \<Longrightarrow>
     \<exists>ces. critical_of_node ve_d vl_d u es acc = Inr ces"
proof (induction es arbitrary: acc)
  case Nil
  then show ?case by simp
next
  case (Cons e es)
  obtain v w where e: "e = (v, w)" by (cases e)
  from in_keys_map_of[OF Cons.prems(1)] obtain a where a: "map_of ve_d u = Some a" ..
  from Cons.prems(2) e have "v \<in> fst ` set vl_d" by simp
  from in_keys_map_of[OF this] obtain b where b: "map_of vl_d v = Some b" ..
  from Cons.prems(2) have "fst ` set es \<subseteq> fst ` set vl_d" by simp
  from Cons.IH[OF Cons.prems(1) this] a b e show ?case by simp
qed

lemma collect_critical_returns:
  "set us \<subseteq> K \<Longrightarrow> (\<forall>u \<in> K. fst ` set (adj_d u) \<subseteq> K) \<Longrightarrow> K \<subseteq> fst ` set ve_d \<Longrightarrow>
   K \<subseteq> fst ` set vl_d \<Longrightarrow> \<exists>ces. collect_critical adj_d ve_d vl_d us acc = Inr ces"
proof (induction us arbitrary: acc)
  case Nil
  then show ?case by simp
next
  case (Cons u us)
  from Cons.prems(1) have uK: "u \<in> K" by simp
  with Cons.prems(3) have a: "u \<in> fst ` set ve_d" by blast
  from uK Cons.prems(2,4) have b: "fst ` set (adj_d u) \<subseteq> fst ` set vl_d" by blast
  from critical_of_node_returns[OF a b, of acc] obtain acc1 where
    r: "critical_of_node ve_d vl_d u (adj_d u) acc = Inr acc1" ..
  from Cons.IH[OF _ Cons.prems(2,3,4)] Cons.prems(1) r show ?case by simp
qed

text \<open>A well-formed, closed, non-empty graph with exact in-degrees and no cycle: the
  topological sort visits every node and \<open>calculate_critical_path\<close> returns a critical
  path.\<close>

lemma acyclic_graph_completes:
  assumes wf: "wf_graph g" and ex: "exact_degrees g" and cl: "closed_graph g"
    and ne: "nodes g \<noteq> []" and ac: "acyclic (edge_rel g)"
  shows "\<exists>g' critical_edges max_time.
           calculate_critical_path g = Inr (g', Some (critical_edges, max_time))"
proof -
  let ?N = "node_ids g"
  let ?q = "filter (\<lambda>node. in_degree g node = 0) ?N"
  let ?ve0 = "fold (\<lambda>node d. AList.update node 0 d) ?N (ve g)"
  from cl have cl': "\<forall>u \<in> set ?N. fst ` set (adj g u) \<subseteq> set ?N" unfolding closed_graph_def .
  from topological_sort_returns[OF cl'] obtain g1 ord where ts: "topological_sort g = Inr (g1, ord)"
    by blast
  note s = topological_sort_sound[OF wf ts]
  from ts obtain ve1 where l: "topo_loop (adj g) ?ve0 (in_degree g) ?q [] = Inr (ve1, ord)"
    unfolding topological_sort_def node_ids_def Let_def by (auto split: sum.splits)
  from wf have dN: "distinct ?N" and vk: "fst ` set (ve g) \<subseteq> set ?N"
    and deg: "\<forall>v \<in> set ?N. int (in_count (adj g) ?N v) \<le> in_degree g v"
    unfolding wf_graph_def by auto
  have ki: "kahn_inv (adj g) ?N ?ve0 (in_degree g) ?q []"
    unfolding kahn_inv_def forward_ok_def using dN vk deg by (auto simp: keys_fold_update)
  have ke: "kahn_exact (adj g) ?N (in_degree g) ?q []"
    using ex unfolding kahn_exact_def exact_degrees_def by simp
  have "edge_rel g \<subseteq> set ?N \<times> set ?N" using cl' unfolding edge_rel_def by auto
  then have "finite (edge_rel g)" by (rule finite_subset) simp
  from finite_acyclic_wf[OF this ac] have "wf (edge_rel g)" .
  then have w: "wf {(u, v). u \<in> set ?N \<and> v \<in> fst ` set (adj g u)}" unfolding edge_rel_def .
  from topo_loop_complete[OF ki ke dN w l] s(3) have all: "set ord = set ?N" by blast
  with s(2) dN have len: "length ord = length (nodes g)"
    by (metis distinct_card length_map node_ids_def)
  from s(1) have n1: "nodes g1 = nodes g" and a1: "adj g1 = adj g"
    by (metis graph.select_convs(3) graph.surjective graph.update_convs(6),
        metis graph.select_convs(4) graph.surjective graph.update_convs(6))
  from ne s(4) have "ve g1 \<noteq> []" by (auto simp: node_ids_def)
  then obtain mt where mx: "py_max (map snd (ve g1)) = Inr mt" by (cases "ve g1") auto
  let ?vl0 = "fold (\<lambda>node d. AList.update node mt d) ?N (vl g1)"
  have k0: "set ?N \<subseteq> fst ` set ?vl0" by (simp add: keys_fold_update)
  from all have "set (rev ord) \<subseteq> set ?N" by simp
  from backward_pass_returns[OF this cl' k0] obtain vl1 where
    bp: "backward_pass (adj g) (rev ord) ?vl0 = Inr vl1" ..
  from backward_pass_keys[OF bp] k0 have k1: "set ?N \<subseteq> fst ` set vl1" by simp
  from s(4) have kv: "set ?N \<subseteq> fst ` set (ve g1)" by simp
  from collect_critical_returns[OF subset_refl cl' kv k1] obtain ces where
    cc: "collect_critical (adj g) (ve g1) vl1 ?N [] = Inr ces" ..
  from ts len n1 a1 mx bp cc show ?thesis
    by (simp add: calculate_critical_path_def node_ids_def Let_def)
qed

lemma topo_ok_snoc:
  assumes "topo_ok adj_d N ord"
    and "\<forall>u \<in> set N. x \<in> fst ` set (adj_d u) \<longrightarrow> u \<in> set ord"
  shows "topo_ok adj_d N (ord @ [x])"
  unfolding topo_ok_def
proof (intro allI impI ballI)
  fix pre y post u
  assume eq: "ord @ [x] = pre @ y # post" and u: "u \<in> set N" "y \<in> fst ` set (adj_d u)"
  show "u \<in> set pre"
  proof (cases post rule: rev_cases)
    case Nil
    with eq have "pre = ord" "y = x" by auto
    with assms(2) u show ?thesis by blast
  next
    case (snoc post' z)
    with eq have "ord = pre @ y # post'" by (metis append_Cons append_assoc butlast_snoc)
    with assms(1) u show ?thesis unfolding topo_ok_def by blast
  qed
qed

lemma topo_loop_ordered:
  "kahn_inv adj_d N ve_d c q ord \<Longrightarrow> distinct N \<Longrightarrow> topo_ok adj_d N ord \<Longrightarrow>
   topo_loop adj_d ve_d c q ord = Inr (ve_d', ord') \<Longrightarrow> topo_ok adj_d N ord'"
proof (induction adj_d ve_d c q ord rule: topo_loop.induct)
  case (1 adj_d ve_d in_degree_copy topo_order)
  then show ?case by simp
next
  case (2 adj_d ve_d in_degree_copy u queue topo_order)
  from "2.prems"(4) obtain ve1 c1 q1 where
    r: "relax u (adj_d u) (ve_d, in_degree_copy, queue) = Inr (ve1, c1, q1)"
    and l: "topo_loop adj_d ve1 c1 q1 (topo_order @ [u]) = Inr (ve_d', ord')"
    by (auto split: sum.splits)
  have "\<forall>a \<in> set N. u \<in> fst ` set (adj_d a) \<longrightarrow> a \<in> set topo_order"
    using kahn_no_edge_into_visited[OF "2.prems"(1), of u] by auto
  from topo_ok_snoc[OF "2.prems"(3) this] have t: "topo_ok adj_d N (topo_order @ [u])" .
  from "2.IH"[OF r refl refl kahn_step[OF "2.prems"(1,2) r] "2.prems"(2) t l] show ?case .
qed

lemma position_less:
  assumes "ord = pre @ v # post" "distinct ord" "u \<in> set pre"
  shows "length (takeWhile (\<lambda>y. y \<noteq> u) ord) < length (takeWhile (\<lambda>y. y \<noteq> v) ord)"
proof -
  from assms(1,2) have "v \<notin> set pre" by auto
  then have v: "takeWhile (\<lambda>y. y \<noteq> v) ord = pre"
    unfolding assms(1) by (auto simp: takeWhile_tail)
  from assms(3) obtain p1 p2 where p: "pre = p1 @ u # p2" "u \<notin> set p1"
    by (auto dest: split_list_first)
  then have "takeWhile (\<lambda>y. y \<noteq> u) ord = p1"
    unfolding assms(1) by (auto simp: takeWhile_tail)
  with v p show ?thesis by simp
qed

lemma full_order_acyclic:
  assumes wf: "wf_graph g" and ts: "topological_sort g = Inr (g1, ord)"
    and len: "length ord = length (nodes g)"
  shows "acyclic (edge_rel g)"
proof -
  let ?N = "node_ids g"
  let ?q = "filter (\<lambda>node. in_degree g node = 0) ?N"
  let ?ve0 = "fold (\<lambda>node d. AList.update node 0 d) ?N (ve g)"
  note s = topological_sort_sound[OF wf ts]
  from ts obtain ve1 where l: "topo_loop (adj g) ?ve0 (in_degree g) ?q [] = Inr (ve1, ord)"
    and g1: "g1 = g\<lparr> ve := ve1 \<rparr>"
    unfolding topological_sort_def node_ids_def Let_def by (auto split: sum.splits)
  from wf have dN: "distinct ?N" and vk: "fst ` set (ve g) \<subseteq> set ?N"
    and deg: "\<forall>v \<in> set ?N. int (in_count (adj g) ?N v) \<le> in_degree g v"
    unfolding wf_graph_def by auto
  have ki: "kahn_inv (adj g) ?N ?ve0 (in_degree g) ?q []"
    unfolding kahn_inv_def forward_ok_def using dN vk deg by (auto simp: keys_fold_update)
  have "topo_ok (adj g) ?N []" by (simp add: topo_ok_def)
  from topo_loop_ordered[OF ki dN this l] have ok: "topo_ok (adj g) ?N ord" .
  have "length ?N = length (nodes g)" by (simp add: node_ids_def)
  with len distinct_card[OF s(2)] distinct_card[OF dN]
  have "card (set ord) = card (set ?N)" by simp
  with s(3) have all: "set ord = set ?N" by (simp add: card_subset_eq)
  let ?f = "\<lambda>x. length (takeWhile (\<lambda>y. y \<noteq> x) ord)"
  have "acyclic ((edge_rel g)\<inverse>)"
  proof (rule acyclicI_order[where f = ?f])
    fix a b assume "(a, b) \<in> (edge_rel g)\<inverse>"
    then have bN: "b \<in> set ?N" and e: "a \<in> fst ` set (adj g b)"
      unfolding edge_rel_def by auto
    from e obtain w where "(a, w) \<in> set (adj g b)" by auto
    with s(5) bN all obtain y where "map_of (ve g1) a = Some y"
      unfolding forward_ok_def by blast
    from map_of_in_keys[OF this] s(4) all have "a \<in> set ord" by simp
    then obtain pre post where sp: "ord = pre @ a # post" by (auto dest: split_list)
    with ok bN e have "b \<in> set pre" unfolding topo_ok_def by blast
    from position_less[OF sp s(2) this] show "?f b < ?f a" .
  qed
  then show ?thesis by simp
qed

lemma short_order_none:
  assumes "topological_sort g = Inr (g1, topo_order)"
    and "length topo_order \<noteq> length (nodes g)"
  shows "calculate_critical_path g = Inr (g1, None)"
proof -
  from assms(1) have "nodes g1 = nodes g"
    unfolding topological_sort_def Let_def by (auto split: sum.splits)
  with assms show ?thesis by (simp add: calculate_critical_path_def)
qed

text \<open>A well-formed closed graph with a cycle: the result is \<open>None\<close>.\<close>

lemma cyclic_graph_detected:
  assumes wf: "wf_graph g" and cl: "closed_graph g" and cyc: "\<not> acyclic (edge_rel g)"
  shows "\<exists>g1. calculate_critical_path g = Inr (g1, None)"
proof -
  from cl have "\<forall>u \<in> set (node_ids g). fst ` set (adj g u) \<subseteq> set (node_ids g)"
    unfolding closed_graph_def .
  from topological_sort_returns[OF this] obtain g1 ord where
    ts: "topological_sort g = Inr (g1, ord)" by blast
  from full_order_acyclic[OF wf ts] cyc have "length ord \<noteq> length (nodes g)" by blast
  from short_order_none[OF ts this] show ?thesis ..
qed

subsection \<open>Evaluating the builder on the sample inputs\<close>

lemmas build_defs = build_graph_from_tasks_def add_nodes_def add_task_nodes_def add_edges_def
  add_task_edges_def add_subtask_edges_def wire_subtask_def add_end_edge_def referenced_tasks_def
  get_task_by_key_def calculate_task_duration_def task_start_of_def task_end_of_def parse_date_def
  fmt_def init_def add_node_def add_edge_def blank_task_def Let_def

lemma parent_graph_returns:
  "\<exists>g'. add_edges demo_calendar
          (add_nodes (init (Some ''PRJ'') (Some ''PRJ'')) parent_tasks (Some ''PRJ'') (Some ''PRJ''))
          parent_tasks (Some ''PRJ'') (Some ''PRJ'') = Inr g'"
  by (simp add: build_defs parent_tasks_def)

lemma backwards_task_instants:
  "task_start_of demo_calendar backwards_task = Some 739406"
  "task_end_of demo_calendar backwards_task = Some 739405"
  by (simp_all add: task_start_of_def task_end_of_def parse_date_def backwards_task_def blank_task_def
        demo_calendar_def june_2025_def)

lemma loose_graph_returns:
  "\<exists>g'. add_edges demo_calendar
          (add_nodes (init (Some ''PRJ'') (Some ''PRJ'')) loose_tasks (Some ''PRJ'') (Some ''PRJ''))
          loose_tasks (Some ''PRJ'') (Some ''PRJ'') = Inr g'"
  by (simp add: build_defs loose_tasks_def)

subsection \<open>Loops and zero-duration edges\<close>

lemma zero_edge_add_edge: "zero_edge g u v \<Longrightarrow> zero_edge (add_edge g a b 0) u v"
  by (simp add: zero_edge_def map_of_add_edge)

lemma zero_edge_add_edge_same: "zero_edge (add_edge g a b 0) a b"
  by (simp add: zero_edge_def map_of_add_edge)

lemma for_each_preserves:
  "(\<forall>s x s'. x \<in> set xs \<longrightarrow> P s \<longrightarrow> body s x = Inr s' \<longrightarrow> P s') \<Longrightarrow>
     P s \<Longrightarrow> for_each body xs s = Inr s' \<Longrightarrow> P s'"
proof (induction xs arbitrary: s)
  case Nil
  then show ?case by simp
next
  case (Cons x xs)
  from Cons.prems(3) obtain s1 where b: "body s x = Inr s1" and r: "for_each body xs s1 = Inr s'"
    by (auto split: sum.splits)
  from Cons.prems(1,2) b have p1: "P s1" by (meson list.set_intros(1))
  from Cons.prems(1) have "\<forall>s x s'. x \<in> set xs \<longrightarrow> P s \<longrightarrow> body s x = Inr s' \<longrightarrow> P s'"
    by (meson list.set_intros(2))
  from Cons.IH[OF this p1 r] show ?case .
qed

lemma for_each_establishes:
  "(\<forall>s x s'. x \<in> set xs \<longrightarrow> P s \<longrightarrow> body s x = Inr s' \<longrightarrow> P s') \<Longrightarrow>
   (\<forall>s s'. body s t = Inr s' \<longrightarrow> P s') \<Longrightarrow>
     t \<in> set xs \<Longrightarrow> for_each body xs s = Inr s' \<Longrightarrow> P s'"
proof (induction xs arbitrary: s)
  case Nil
  then show ?case by simp
next
  case (Cons x xs)
  from Cons.prems(4) obtain s1 where b: "body s x = Inr s1" and r: "for_each body xs s1 = Inr s'"
    by (auto split: sum.splits)
  from Cons.prems(1) have pres: "\<forall>s x s'. x \<in> set xs \<longrightarrow> P s \<longrightarrow> body s x = Inr s' \<longrightarrow> P s'"
    by (meson list.set_intros(2))
  show ?case
  proof (cases "x = t")
    case True
    with b Cons.prems(2) have "P s1" by blast
    from for_each_preserves[OF pres this r] show ?thesis .
  next
    case False
    with Cons.prems(3) have "t \<in> set xs" by simp
    from Cons.IH[OF pres Cons.prems(2) this r] show ?thesis .
  qed
qed

lemma fold_preserves:
  "(\<forall>s x. x \<in> set xs \<longrightarrow> P s \<longrightarrow> P (f x s)) \<Longrightarrow> P s \<Longrightarrow> P (fold f xs s)"
  by (induction xs arbitrary: s) auto

lemma wire_subtask_zero_edge:
  assumes "wire_subtask cal ts a (g, d) x = Inr (g', d')" "zero_edge g u v"
  shows "zero_edge g' u v"
  using assms
  by (auto simp: wire_subtask_def Let_def zero_edge_add_edge split: option.splits sum.splits if_splits)

lemma wire_subtasks_zero_edge:
  assumes "for_each (wire_subtask cal ts a) xs (g, d) = Inr (g', d')" "zero_edge g u v"
  shows "zero_edge g' u v"
proof -
  have "\<forall>s x s'. x \<in> set xs \<longrightarrow> zero_edge (fst s) u v \<longrightarrow> wire_subtask cal ts a s x = Inr s'
           \<longrightarrow> zero_edge (fst s') u v"
  proof (intro allI impI)
    fix s x s' assume "zero_edge (fst s) u v" "wire_subtask cal ts a s x = Inr s'"
    then show "zero_edge (fst s') u v"
      using wire_subtask_zero_edge[of cal ts a "fst s" "snd s" x "fst s'" "snd s'"] by simp
  qed
  from for_each_preserves[where P = "\<lambda>s. zero_edge (fst s) u v", OF this _ assms(1)] assms(2)
  show ?thesis by simp
qed

lemma exit_edges_zero_edge:
  "zero_edge g u v \<Longrightarrow>
   zero_edge (fold (\<lambda>subtask_key g. if subtask_key \<notin> referenced
                      then add_edge g (subtask_key @ ''_end'') e 0 else g) xs g) u v"
  by (rule fold_preserves[where P = "\<lambda>g. zero_edge g u v"]) (auto simp: zero_edge_add_edge)

lemma add_subtask_edges_zero_edge:
  assumes "add_subtask_edges cal ts referenced g t = Inr g'" "zero_edge g u v"
  shows "zero_edge g' u v"
proof (cases "\<exists>k. key t = Some k \<and> k \<noteq> [] \<and> subtasks t \<noteq> []")
  case False
  with assms show ?thesis
    by (auto simp: add_subtask_edges_def split: option.splits if_splits)
next
  case True
  then obtain k where k: "key t = Some k" "k \<noteq> []" "subtasks t \<noteq> []" by blast
  with assms(1) obtain g1 d1 where
    w: "for_each (wire_subtask cal ts (k @ ''_start'')) (subtasks t) (g, 0) = Inr (g1, d1)"
    and g': "g' = add_edge (fold (\<lambda>subtask_key g. if subtask_key \<notin> referenced
                      then add_edge g (subtask_key @ ''_end'') (k @ ''_end'') 0 else g) (subtasks t) g1)
                 (k @ ''_start'') (k @ ''_end'') 0"
    by (auto simp: add_subtask_edges_def Let_def split: sum.splits)
  from wire_subtasks_zero_edge[OF w assms(2)] have "zero_edge g1 u v" .
  then show ?thesis unfolding g' by (intro zero_edge_add_edge exit_edges_zero_edge)
qed

lemma add_subtask_edges_forces_zero:
  assumes "add_subtask_edges cal ts referenced g t = Inr g'"
    "key t = Some k" "k \<noteq> []" "subtasks t \<noteq> []"
  shows "zero_edge g' (k @ ''_start'') (k @ ''_end'')"
proof -
  from assms obtain g2 where "g' = add_edge g2 (k @ ''_start'') (k @ ''_end'') 0"
    by (auto simp: add_subtask_edges_def Let_def split: sum.splits)
  then show ?thesis by (simp add: zero_edge_add_edge_same)
qed

lemma add_end_edge_zero_edge:
  "zero_edge g u v \<Longrightarrow> zero_edge (add_end_edge k referenced g t) u v"
  by (simp add: add_end_edge_def zero_edge_add_edge)

text \<open>
  Claim C6. After \<open>add_edges\<close> has returned, a task of the list with a key and a non-empty
  list of subtasks has its own edge from start to end at duration zero, whatever duration
  the first loop gave it: the lookup of the end node in the adjacency list of the start
  node gives 0.
\<close>

theorem parent_edge_forced_zero:
  assumes "add_edges cal g ts pk name = Inr g'"
    and "t \<in> set ts" and "key t = Some k" and "k \<noteq> []" and "subtasks t \<noteq> []"
  shows "map_of (adj g' (k @ ''_start'')) (k @ ''_end'') = Some 0"
proof -
  let ?u = "k @ ''_start''" and ?v = "k @ ''_end''"
  from assms(1) obtain g1 g2 where
    l2: "for_each (add_subtask_edges cal ts (referenced_tasks ts)) ts g1 = Inr g2"
    and g': "g' = fold (\<lambda>t g. add_end_edge pk (referenced_tasks ts) g t) ts g2"
    by (auto simp: add_edges_def split: sum.splits)
  have pres: "\<forall>s x s'. x \<in> set ts \<longrightarrow> zero_edge s ?u ?v
               \<longrightarrow> add_subtask_edges cal ts (referenced_tasks ts) s x = Inr s' \<longrightarrow> zero_edge s' ?u ?v"
    using add_subtask_edges_zero_edge by blast
  have est: "\<forall>s s'. add_subtask_edges cal ts (referenced_tasks ts) s t = Inr s' \<longrightarrow> zero_edge s' ?u ?v"
    using add_subtask_edges_forces_zero[OF _ assms(3,4,5)] by blast
  from for_each_establishes[where P = "\<lambda>g. zero_edge g ?u ?v", OF pres est assms(2) l2]
  have "zero_edge g2 ?u ?v" .
  then have "zero_edge g' ?u ?v"
    unfolding g'
    by (rule fold_preserves[where P = "\<lambda>g. zero_edge g ?u ?v", rotated])
       (simp add: add_end_edge_zero_edge)
  then show ?thesis by (simp add: zero_edge_def)
qed

theorem parent_edge_forced_zero_witness:
  "\<exists>g'. add_edges demo_calendar
          (add_nodes (init (Some ''PRJ'') (Some ''PRJ'')) parent_tasks (Some ''PRJ'') (Some ''PRJ''))
          parent_tasks (Some ''PRJ'') (Some ''PRJ'') = Inr g'
      \<and> parent_tasks ! 0 \<in> set parent_tasks
      \<and> key (parent_tasks ! 0) = Some ''P''
      \<and> subtasks (parent_tasks ! 0) = [''S1'', ''S2'']
      \<and> aggregatetimeoriginalestimate (parent_tasks ! 0) = Some 36000
      \<and> map_of (adj g' ''P_start'') ''P_end'' = Some 0"
proof -
  from parent_graph_returns obtain g' where
    r: "add_edges demo_calendar
          (add_nodes (init (Some ''PRJ'') (Some ''PRJ'')) parent_tasks (Some ''PRJ'') (Some ''PRJ''))
          parent_tasks (Some ''PRJ'') (Some ''PRJ'') = Inr g'" ..
  have t: "parent_tasks ! 0 \<in> set parent_tasks" "key (parent_tasks ! 0) = Some ''P''"
    "''P'' \<noteq> []" "subtasks (parent_tasks ! 0) \<noteq> []"
    "subtasks (parent_tasks ! 0) = [''S1'', ''S2'']"
    "aggregatetimeoriginalestimate (parent_tasks ! 0) = Some 36000"
    by (simp_all add: parent_tasks_def blank_task_def)
  from parent_edge_forced_zero[OF r t(1,2,3,4)] r t show ?thesis by auto
qed

subsection \<open>Tasks that end before they start\<close>

lemma count_workdays_empty: "e < s \<Longrightarrow> count_workdays cal s e d = Inr d"
  by (subst count_workdays.simps) simp

lemma fold_pred_edges_zero_edge:
  "zero_edge g u v \<Longrightarrow>
   zero_edge (fold (\<lambda>predecessor_key g. add_edge g (predecessor_key @ ''_end'') a 0) ps g) u v"
  by (rule fold_preserves[where P = "\<lambda>g. zero_edge g u v"]) (auto simp: zero_edge_add_edge)

text \<open>
  Claim C8. When the start and the end instant of a task both resolve and the end is
  before the start, \<open>calculate_task_duration\<close> returns 0 hours (no working day is
  counted), whatever the estimate is (it is not read), and the first loop of \<open>add_edges\<close>
  creates the edge of the task with duration zero.
\<close>

theorem end_before_start_zero_duration:
  assumes "task_start_of cal t = Some s" and "task_end_of cal t = Some e" and "e < s"
  shows "calculate_task_duration cal t = Inr (Some 0)
       \<and> (\<forall>est. calculate_task_duration cal (t\<lparr> aggregatetimeoriginalestimate := est \<rparr>) = Inr (Some 0))
       \<and> (\<forall>k pk g. key t = Some k \<and> k \<noteq> [] \<longrightarrow>
            (\<exists>g'. add_task_edges cal pk g t = Inr g' \<and>
                  map_of (adj g' (k @ ''_start'')) (k @ ''_end'') = Some 0))"
proof -
  have d: "calculate_task_duration cal t = Inr (Some 0)"
    using assms by (simp add: calculate_task_duration_def count_workdays_empty)
  have i: "\<And>est. calculate_task_duration cal (t\<lparr> aggregatetimeoriginalestimate := est \<rparr>) = Inr (Some 0)"
  proof -
    fix est
    have "task_start_of cal (t\<lparr> aggregatetimeoriginalestimate := est \<rparr>) = Some s"
      "task_end_of cal (t\<lparr> aggregatetimeoriginalestimate := est \<rparr>) = Some e"
      using assms(1,2) by (simp_all add: task_start_of_def task_end_of_def)
    then show "calculate_task_duration cal (t\<lparr> aggregatetimeoriginalestimate := est \<rparr>) = Inr (Some 0)"
      using assms(3) by (simp add: calculate_task_duration_def count_workdays_empty)
  qed
  have e: "\<And>k pk g. key t = Some k \<Longrightarrow> k \<noteq> [] \<Longrightarrow>
            \<exists>g'. add_task_edges cal pk g t = Inr g' \<and>
                  map_of (adj g' (k @ ''_start'')) (k @ ''_end'') = Some 0"
  proof -
    fix k pk g assume k: "key t = Some k" "k \<noteq> []"
    let ?u = "k @ ''_start''" and ?v = "k @ ''_end''"
    let ?g1 = "add_edge g ?u ?v 0"
    have z: "zero_edge ?g1 ?u ?v" by (rule zero_edge_add_edge_same)
    show "\<exists>g'. add_task_edges cal pk g t = Inr g' \<and> map_of (adj g' ?u) ?v = Some 0"
    proof (cases "predecessors t")
      case None
      with k d z show ?thesis
        by (auto simp: add_task_edges_def Let_def zero_edge_def map_of_add_edge)
    next
      case (Some ps)
      show ?thesis
      proof (cases ps)
        case Nil
        with Some k d z show ?thesis
          by (auto simp: add_task_edges_def Let_def zero_edge_def map_of_add_edge)
      next
        case (Cons p ps')
        from fold_pred_edges_zero_edge[OF z, of ?u ps]
        have "zero_edge (fold (\<lambda>predecessor_key g. add_edge g (predecessor_key @ ''_end'') ?u 0) ps ?g1) ?u ?v" .
        with Some Cons k d show ?thesis
          by (simp add: add_task_edges_def Let_def zero_edge_def)
      qed
    qed
  qed
  from d i e show ?thesis by blast
qed

theorem end_before_start_zero_duration_witness:
  "task_start_of demo_calendar backwards_task = Some 739406
   \<and> task_end_of demo_calendar backwards_task = Some 739405
   \<and> (739405 :: int) < 739406
   \<and> aggregatetimeoriginalestimate backwards_task = Some 7200
   \<and> calculate_task_duration demo_calendar backwards_task = Inr (Some 0)"
proof -
  have l: "(739405 :: int) < 739406" by simp
  have e: "aggregatetimeoriginalestimate backwards_task = Some 7200"
    by (simp add: backwards_task_def blank_task_def)
  from end_before_start_zero_duration[OF backwards_task_instants l] backwards_task_instants l e
  show ?thesis by blast
qed

subsection \<open>Tasks that are not marked as top-level\<close>

lemma start_neq_end: "a @ ''_start'' \<noteq> b @ ''_end''"
proof
  assume "a @ ''_start'' = b @ ''_end''"
  then have "last (a @ ''_start'') = last (b @ ''_end'')" by simp
  then show False by simp
qed

lemma has_edge_add_edge:
  "has_edge (add_edge g a b d) u v \<longleftrightarrow> has_edge g u v \<or> (u = a \<and> v = b)"
proof (cases "u = a")
  case True
  have "set (map fst (adj (add_edge g a b d) a)) = insert b (set (map fst (adj g a)))"
    unfolding keys_add_edge by auto
  with True show ?thesis by (auto simp: has_edge_def)
next
  case False
  then show ?thesis by (simp add: has_edge_def adj_add_edge_other)
qed

lemma unwired_add_edge:
  assumes "unwired g pk k"
    and "\<not> (a = fmt pk @ ''_start'' \<and> b = k @ ''_start'')"
    and "\<not> (a = k @ ''_end'' \<and> b = fmt pk @ ''_end'')"
  shows "unwired (add_edge g a b d) pk k"
  using assms by (auto simp: unwired_def has_edge_add_edge)

lemma unwired_pred_edges:
  "unwired g pk k \<Longrightarrow>
   unwired (fold (\<lambda>predecessor_key g. add_edge g (predecessor_key @ ''_end'') (x @ ''_start'') 0) ps g) pk k"
proof (rule fold_preserves[where P = "\<lambda>g. unwired g pk k"])
  show "\<forall>s p. p \<in> set ps \<longrightarrow> unwired s pk k \<longrightarrow> unwired (add_edge s (p @ ''_end'') (x @ ''_start'') 0) pk k"
    using start_neq_end[of x] start_neq_end[of "fmt pk"]
    by (intro allI impI unwired_add_edge) (auto simp del: append_assoc)
qed

lemma add_task_edges_unwired:
  assumes r: "add_task_edges cal pk g t = Inr g'" and u: "unwired g pk k"
    and h: "fmt (key t) = k \<longrightarrow> isSubtask t \<noteq> Some False"
  shows "unwired g' pk k"
proof (cases "\<exists>x d. key t = Some x \<and> x \<noteq> [] \<and> calculate_task_duration cal t = Inr (Some d)")
  case False
  with r have "g' = g"
    by (auto simp: add_task_edges_def split: option.splits if_splits sum.splits)
  with u show ?thesis by simp
next
  case True
  then obtain x d where x: "key t = Some x" "x \<noteq> []"
    and d: "calculate_task_duration cal t = Inr (Some d)" by blast
  let ?g1 = "add_edge g (x @ ''_start'') (x @ ''_end'') d"
  have u1: "unwired ?g1 pk k"
    using start_neq_end[of k x] start_neq_end[of x k]
    by (intro unwired_add_edge[OF u]) auto
  show ?thesis
  proof (cases "\<exists>p ps. predecessors t = Some (p # ps)")
    case True
    then obtain p ps where "predecessors t = Some (p # ps)" by blast
    with r x d have "g' = fold (\<lambda>predecessor_key g. add_edge g (predecessor_key @ ''_end'') (x @ ''_start'') 0) (p # ps) ?g1"
      by (simp add: add_task_edges_def Let_def)
    with unwired_pred_edges[OF u1, of x "p # ps"] show ?thesis by simp
  next
    case False
    then have np: "predecessors t = None \<or> predecessors t = Some []"
    proof (cases "predecessors t")
      case None
      then show ?thesis by simp
    next
      case (Some a)
      with False show ?thesis by (cases a) auto
    qed
    show ?thesis
    proof (cases "isSubtask t = Some False")
      case True
      with h x have "x \<noteq> k" by (auto simp: fmt_def)
      moreover from r x d np True have "g' = add_edge ?g1 (fmt pk @ ''_start'') (x @ ''_start'') 0"
        by (auto simp: add_task_edges_def Let_def)
      ultimately show ?thesis
        using start_neq_end[of "fmt pk" "fmt pk"] by (auto intro!: unwired_add_edge[OF u1])
    next
      case False
      with r x d np have "g' = ?g1" by (auto simp: add_task_edges_def Let_def)
      with u1 show ?thesis by simp
    qed
  qed
qed

lemma wire_subtask_unwired:
  assumes r: "wire_subtask cal ts (x @ ''_start'') (g, d) sub = Inr (g', d')" and u: "unwired g pk k"
    and h: "x = fmt pk \<longrightarrow> sub \<noteq> k"
  shows "unwired g' pk k"
proof -
  have "unwired (add_edge g (x @ ''_start'') (sub @ ''_start'') 0) pk k"
    using h start_neq_end[of x "fmt pk"] by (intro unwired_add_edge[OF u]) auto
  with r u show ?thesis
    by (auto simp: wire_subtask_def Let_def split: option.splits sum.splits if_splits)
qed

lemma add_subtask_edges_unwired:
  assumes r: "add_subtask_edges cal ts referenced g t = Inr g'" and u: "unwired g pk k"
    and h: "key t = Some (fmt pk) \<longrightarrow> k \<notin> set (subtasks t)"
  shows "unwired g' pk k"
proof (cases "\<exists>x. key t = Some x \<and> x \<noteq> [] \<and> subtasks t \<noteq> []")
  case False
  with r have "g' = g"
    by (auto simp: add_subtask_edges_def split: option.splits if_splits)
  with u show ?thesis by simp
next
  case True
  then obtain x where x: "key t = Some x" "x \<noteq> []" "subtasks t \<noteq> []" by blast
  let ?exit = "\<lambda>subtask_key g. if subtask_key \<notin> referenced
                      then add_edge g (subtask_key @ ''_end'') (x @ ''_end'') 0 else g"
  from r x obtain g1 d1 where
    w: "for_each (wire_subtask cal ts (x @ ''_start'')) (subtasks t) (g, 0) = Inr (g1, d1)"
    and g': "g' = add_edge (fold ?exit (subtasks t) g1) (x @ ''_start'') (x @ ''_end'') 0"
    by (auto simp: add_subtask_edges_def Let_def split: sum.splits)
  from h x have hk: "\<forall>sub \<in> set (subtasks t). x = fmt pk \<longrightarrow> sub \<noteq> k" by auto
  have "\<forall>s sub s'. sub \<in> set (subtasks t) \<longrightarrow> unwired (fst s) pk k
          \<longrightarrow> wire_subtask cal ts (x @ ''_start'') s sub = Inr s' \<longrightarrow> unwired (fst s') pk k"
  proof (intro allI impI)
    fix s sub s'
    assume "sub \<in> set (subtasks t)" "unwired (fst s) pk k"
      "wire_subtask cal ts (x @ ''_start'') s sub = Inr s'"
    then show "unwired (fst s') pk k"
      using wire_subtask_unwired[of cal ts x "fst s" "snd s" sub "fst s'" "snd s'" pk k] hk by simp
  qed
  from for_each_preserves[where P = "\<lambda>s. unwired (fst s) pk k", OF this _ w] u
  have u1: "unwired g1 pk k" by simp
  have "\<forall>s sub. sub \<in> set (subtasks t) \<longrightarrow> unwired s pk k \<longrightarrow> unwired (?exit sub s) pk k"
  proof (intro allI impI)
    fix s sub assume sub: "sub \<in> set (subtasks t)" and us: "unwired s pk k"
    have "unwired (add_edge s (sub @ ''_end'') (x @ ''_end'') 0) pk k"
      using hk sub start_neq_end[of "fmt pk" sub] by (intro unwired_add_edge[OF us]) auto
    with us show "unwired (?exit sub s) pk k" by simp
  qed
  from fold_preserves[where P = "\<lambda>g. unwired g pk k", OF this u1]
  have "unwired (fold ?exit (subtasks t) g1) pk k" .
  then show ?thesis unfolding g'
    using start_neq_end[of x "fmt pk"] start_neq_end[of k x]
    by (intro unwired_add_edge) auto
qed

lemma add_end_edge_unwired:
  assumes u: "unwired g pk k" and h: "fmt (key t) = k \<longrightarrow> isSubtask t \<noteq> Some False"
  shows "unwired (add_end_edge pk referenced g t) pk k"
proof (cases "isSubtask t = Some False")
  case True
  with h have "fmt (key t) \<noteq> k" by blast
  then have "unwired (add_edge g (fmt (key t) @ ''_end'') (fmt pk @ ''_end'') 0) pk k"
    using start_neq_end[of "fmt pk" "fmt (key t)"] by (intro unwired_add_edge[OF u]) auto
  with u show ?thesis by (simp add: add_end_edge_def)
next
  case False
  with u show ?thesis by (simp add: add_end_edge_def)
qed

text \<open>
  Claim C9. Let \<open>k\<close> be the key of a task whose \<open>isSubtask\<close> is absent or not \<open>False\<close>
  (and of no task whose \<open>isSubtask\<close> is \<open>False\<close>), and let no task that carries the
  project key as its own key list \<open>k\<close> among its subtasks, so that the start node of the
  project is not also the start node of a parent of \<open>k\<close>. Then \<open>add_edges\<close> creates no
  edge from the project start to the start node of \<open>k\<close> and no edge from the end node of
  \<open>k\<close> to the project end, whether or not the task has predecessors or is a leaf.
\<close>

theorem non_false_isSubtask_not_wired:
  assumes res: "add_edges cal g ts pk name = Inr g'"
    and own: "\<forall>t \<in> set ts. fmt (key t) = k \<longrightarrow> isSubtask t \<noteq> Some False"
    and par: "\<forall>p \<in> set ts. key p = Some (fmt pk) \<longrightarrow> k \<notin> set (subtasks p)"
    and before: "unwired g pk k"
  shows "\<not> has_edge g' (fmt pk @ ''_start'') (k @ ''_start'')
       \<and> \<not> has_edge g' (k @ ''_end'') (fmt pk @ ''_end'')"
proof -
  let ?ref = "referenced_tasks ts"
  from res obtain g1 g2 where
    l1: "for_each (add_task_edges cal pk) ts g = Inr g1"
    and l2: "for_each (add_subtask_edges cal ts ?ref) ts g1 = Inr g2"
    and g': "g' = fold (\<lambda>t g. add_end_edge pk ?ref g t) ts g2"
    by (auto simp: add_edges_def split: sum.splits)
  have "\<forall>s t s'. t \<in> set ts \<longrightarrow> unwired s pk k \<longrightarrow> add_task_edges cal pk s t = Inr s'
          \<longrightarrow> unwired s' pk k"
    using add_task_edges_unwired own by blast
  from for_each_preserves[where P = "\<lambda>g. unwired g pk k", OF this before l1]
  have u1: "unwired g1 pk k" .
  have "\<forall>s t s'. t \<in> set ts \<longrightarrow> unwired s pk k \<longrightarrow> add_subtask_edges cal ts ?ref s t = Inr s'
          \<longrightarrow> unwired s' pk k"
    using add_subtask_edges_unwired par by blast
  from for_each_preserves[where P = "\<lambda>g. unwired g pk k", OF this u1 l2]
  have u2: "unwired g2 pk k" .
  have "\<forall>s t. t \<in> set ts \<longrightarrow> unwired s pk k \<longrightarrow> unwired (add_end_edge pk ?ref s t) pk k"
    using add_end_edge_unwired own by blast
  from fold_preserves[where P = "\<lambda>g. unwired g pk k" and f = "\<lambda>t g. add_end_edge pk ?ref g t", OF this u2]
  have "unwired g' pk k" unfolding g' .
  then show ?thesis by (simp add: unwired_def)
qed

theorem non_false_isSubtask_not_wired_witness:
  "\<exists>g'. add_edges demo_calendar
          (add_nodes (init (Some ''PRJ'') (Some ''PRJ'')) loose_tasks (Some ''PRJ'') (Some ''PRJ''))
          loose_tasks (Some ''PRJ'') (Some ''PRJ'') = Inr g'
      \<and> isSubtask (loose_tasks ! 0) = None \<and> key (loose_tasks ! 0) = Some ''L''
      \<and> \<not> has_edge g' ''PRJ_start'' ''L_start'' \<and> \<not> has_edge g' ''L_end'' ''PRJ_end''"
proof -
  let ?g = "add_nodes (init (Some ''PRJ'') (Some ''PRJ'')) loose_tasks (Some ''PRJ'') (Some ''PRJ'')"
  from loose_graph_returns obtain g' where
    r: "add_edges demo_calendar ?g loose_tasks (Some ''PRJ'') (Some ''PRJ'') = Inr g'" ..
  have own: "\<forall>t \<in> set loose_tasks. fmt (key t) = ''L'' \<longrightarrow> isSubtask t \<noteq> Some False"
    by (simp add: loose_tasks_def blank_task_def)
  have par: "\<forall>p \<in> set loose_tasks. key p = Some (fmt (Some ''PRJ'')) \<longrightarrow> ''L'' \<notin> set (subtasks p)"
    by (simp add: loose_tasks_def blank_task_def)
  have before: "unwired ?g (Some ''PRJ'') ''L''"
    by (simp add: unwired_def has_edge_def add_nodes_def add_task_nodes_def add_node_def init_def
          loose_tasks_def Let_def)
  have t: "isSubtask (loose_tasks ! 0) = None" "key (loose_tasks ! 0) = Some ''L''"
    by (simp_all add: loose_tasks_def blank_task_def)
  from non_false_isSubtask_not_wired[OF r own par before] r t show ?thesis
    by (auto simp: fmt_def)
qed

subsection \<open>Critical task annotator\<close>

lemma flagged_idem [simp]: "flagged (flagged t) = flagged t"
  by (simp add: flagged_def)

lemma key_flagged [simp]: "key (flagged t) = key t"
  by (simp add: flagged_def)

lemma mark_task_None: "mark_task k ts = None \<longleftrightarrow> get_task_by_key ts k = None"
  by (induction ts) (auto simp: get_task_by_key_def)

lemma mark_task_Some:
  "mark_task k ts = Some (m, ts') \<Longrightarrow>
     \<exists>t. get_task_by_key ts k = Some t \<and> m = flagged t \<and> length ts' = length ts \<and>
         (\<forall>k'. get_task_by_key ts' k' = (if k' = k then Some (flagged t) else get_task_by_key ts k')) \<and>
         (\<forall>i < length ts. ts' ! i = ts ! i \<or> (ts' ! i = flagged (ts ! i) \<and> key (ts ! i) = Some k))"
proof (induction ts arbitrary: ts')
  case Nil
  then show ?case by simp
next
  case (Cons a ts)
  show ?case
  proof (cases "key a = Some k")
    case True
    with Cons.prems have m: "m = flagged a" and ts': "ts' = flagged a # ts"
      by (auto simp: flagged_def)
    have n: "\<forall>i < length (a # ts). ts' ! i = (a # ts) ! i \<or>
               (ts' ! i = flagged ((a # ts) ! i) \<and> key ((a # ts) ! i) = Some k)"
    proof (intro allI impI)
      fix i assume "i < length (a # ts)"
      show "ts' ! i = (a # ts) ! i \<or> (ts' ! i = flagged ((a # ts) ! i) \<and> key ((a # ts) ! i) = Some k)"
        using True ts' by (cases i) simp_all
    qed
    have "get_task_by_key (a # ts) k = Some a" using True by (simp add: get_task_by_key_def)
    moreover have "\<forall>k'. get_task_by_key ts' k' = (if k' = k then Some (flagged a) else get_task_by_key (a # ts) k')"
      using True ts' by (simp add: get_task_by_key_def)
    ultimately show ?thesis using m ts' n by (intro exI[of _ a]) simp
  next
    case False
    with Cons.prems obtain ts1 where r: "mark_task k ts = Some (m, ts1)" and ts': "ts' = a # ts1"
      by auto
    from Cons.IH[OF r] obtain t where t: "get_task_by_key ts k = Some t" "m = flagged t"
      "length ts1 = length ts"
      "\<forall>k'. get_task_by_key ts1 k' = (if k' = k then Some (flagged t) else get_task_by_key ts k')"
      "\<forall>i < length ts. ts1 ! i = ts ! i \<or> (ts1 ! i = flagged (ts ! i) \<and> key (ts ! i) = Some k)"
      by blast
    have g: "get_task_by_key (a # ts) k = Some t" using False t(1) by (simp add: get_task_by_key_def)
    have l: "\<forall>k'. get_task_by_key ts' k' = (if k' = k then Some (flagged t) else get_task_by_key (a # ts) k')"
    proof
      fix k'
      show "get_task_by_key ts' k' = (if k' = k then Some (flagged t) else get_task_by_key (a # ts) k')"
      proof (cases "key a = Some k'")
        case True
        with False have "k' \<noteq> k" by auto
        with True ts' show ?thesis by (simp add: get_task_by_key_def)
      next
        case no: False
        then have "get_task_by_key ts' k' = get_task_by_key ts1 k'"
          "get_task_by_key (a # ts) k' = get_task_by_key ts k'"
          using ts' by (simp_all add: get_task_by_key_def)
        with t(4) show ?thesis by simp
      qed
    qed
    have n: "\<forall>i < length (a # ts). ts' ! i = (a # ts) ! i \<or>
               (ts' ! i = flagged ((a # ts) ! i) \<and> key ((a # ts) ! i) = Some k)"
    proof (intro allI impI)
      fix i assume i: "i < length (a # ts)"
      show "ts' ! i = (a # ts) ! i \<or> (ts' ! i = flagged ((a # ts) ! i) \<and> key ((a # ts) ! i) = Some k)"
      proof (cases i)
        case 0
        then show ?thesis using ts' by simp
      next
        case (Suc j)
        with i have "j < length ts" by simp
        with t(5) Suc ts' show ?thesis by simp
      qed
    qed
    from g t(2) t(3) ts' l n show ?thesis by (intro exI[of _ t]) simp
  qed
qed

lemma positive_sources_Cons:
  "positive_sources ((u, v, w) # es) =
     (if 0 < w then insert (remove_suffix u ''_start'') (positive_sources es) else positive_sources es)"
  by (auto simp: positive_sources_def)

lemma annotate_edge_apply:
  "annotate_edge (tasks_attr, critical_tasks) (u, v, w) =
     (if w > 0
      then (case tasks_attr of
              None \<Rightarrow> Inl AttributeError
            | Some ts \<Rightarrow>
                (case mark_task (remove_suffix u ''_start'') ts of
                   None \<Rightarrow> Inr (Some ts, critical_tasks)
                 | Some (task, ts') \<Rightarrow> Inr (Some ts', critical_tasks @ [task])))
      else Inr (tasks_attr, critical_tasks))"
  by (simp add: annotate_edge_def)

lemma annotate_loop:
  "for_each annotate_edge es (Some ts, out) = Inr (ta, out') \<Longrightarrow>
     \<exists>ts'. ta = Some ts' \<and> length ts' = length ts \<and>
       (\<forall>k. get_task_by_key ts' k =
              (if k \<in> positive_sources es then map_option flagged (get_task_by_key ts k)
               else get_task_by_key ts k)) \<and>
       set out' = set out \<union> {flagged t | t k. k \<in> positive_sources es \<and> get_task_by_key ts k = Some t} \<and>
       (\<forall>i < length ts. ts' ! i = ts ! i \<or>
              (ts' ! i = flagged (ts ! i) \<and> (\<exists>k \<in> positive_sources es. key (ts ! i) = Some k)))"
proof (induction es arbitrary: ts out)
  case Nil
  then show ?case by (auto simp: positive_sources_def)
next
  case (Cons e es)
  obtain u v w where e: "e = (u, v, w)" by (cases e)
  let ?k0 = "remove_suffix u ''_start''"
  show ?case
  proof (cases "0 < w")
    case False
    with Cons.prems e have r: "for_each annotate_edge es (Some ts, out) = Inr (ta, out')"
      by (simp add: annotate_edge_apply)
    from False e have "positive_sources (e # es) = positive_sources es"
      by (simp add: positive_sources_Cons)
    with Cons.IH[OF r] show ?thesis by simp
  next
    case pos: True
    then have K: "positive_sources (e # es) = insert ?k0 (positive_sources es)"
      using e by (simp add: positive_sources_Cons)
    show ?thesis
    proof (cases "mark_task ?k0 ts")
      case None
      then have g0: "get_task_by_key ts ?k0 = None" by (simp add: mark_task_None)
      from Cons.prems e pos None have r: "for_each annotate_edge es (Some ts, out) = Inr (ta, out')"
        by (simp add: annotate_edge_apply)
      from Cons.IH[OF r] obtain ts' where t: "ta = Some ts'" "length ts' = length ts"
        "\<forall>k. get_task_by_key ts' k =
              (if k \<in> positive_sources es then map_option flagged (get_task_by_key ts k)
               else get_task_by_key ts k)"
        "set out' = set out \<union> {flagged t | t k. k \<in> positive_sources es \<and> get_task_by_key ts k = Some t}"
        "\<forall>i < length ts. ts' ! i = ts ! i \<or>
              (ts' ! i = flagged (ts ! i) \<and> (\<exists>k \<in> positive_sources es. key (ts ! i) = Some k))"
        by blast
      have a: "\<forall>k. get_task_by_key ts' k =
              (if k \<in> positive_sources (e # es) then map_option flagged (get_task_by_key ts k)
               else get_task_by_key ts k)"
        using t(3) g0 unfolding K by auto
      have b: "{flagged t | t k. k \<in> positive_sources (e # es) \<and> get_task_by_key ts k = Some t}
             = {flagged t | t k. k \<in> positive_sources es \<and> get_task_by_key ts k = Some t}"
        using g0 unfolding K by auto
      have c: "\<forall>i < length ts. ts' ! i = ts ! i \<or>
              (ts' ! i = flagged (ts ! i) \<and> (\<exists>k \<in> positive_sources (e # es). key (ts ! i) = Some k))"
        using t(5) unfolding K by blast
      from t(1,2) a t(4) b c show ?thesis by (intro exI[of _ ts']) simp
    next
      case (Some p)
      obtain m ts1 where p: "p = (m, ts1)" by (cases p)
      from mark_task_Some[OF Some[unfolded p]] obtain t0 where t0:
        "get_task_by_key ts ?k0 = Some t0" "m = flagged t0" "length ts1 = length ts"
        "\<forall>k'. get_task_by_key ts1 k' = (if k' = ?k0 then Some (flagged t0) else get_task_by_key ts k')"
        "\<forall>i < length ts. ts1 ! i = ts ! i \<or> (ts1 ! i = flagged (ts ! i) \<and> key (ts ! i) = Some ?k0)"
        by blast
      from Cons.prems e pos Some p
      have r: "for_each annotate_edge es (Some ts1, out @ [m]) = Inr (ta, out')"
        by (simp add: annotate_edge_apply)
      from Cons.IH[OF r] obtain ts' where t: "ta = Some ts'" "length ts' = length ts1"
        "\<forall>k. get_task_by_key ts' k =
              (if k \<in> positive_sources es then map_option flagged (get_task_by_key ts1 k)
               else get_task_by_key ts1 k)"
        "set out' = set (out @ [m]) \<union> {flagged t | t k. k \<in> positive_sources es \<and> get_task_by_key ts1 k = Some t}"
        "\<forall>i < length ts1. ts' ! i = ts1 ! i \<or>
              (ts' ! i = flagged (ts1 ! i) \<and> (\<exists>k \<in> positive_sources es. key (ts1 ! i) = Some k))"
        by blast
      have a: "\<forall>k. get_task_by_key ts' k =
              (if k \<in> positive_sources (e # es) then map_option flagged (get_task_by_key ts k)
               else get_task_by_key ts k)"
      proof
        fix k
        show "get_task_by_key ts' k =
              (if k \<in> positive_sources (e # es) then map_option flagged (get_task_by_key ts k)
               else get_task_by_key ts k)"
        proof (cases "k = ?k0")
          case True
          with t(3) t0(1,4) show ?thesis unfolding K by simp
        next
          case False
          with t0(4) have "get_task_by_key ts1 k = get_task_by_key ts k" by simp
          with t(3) False show ?thesis unfolding K by simp
        qed
      qed
      have b: "set out' = set out \<union>
                 {flagged t | t k. k \<in> positive_sources (e # es) \<and> get_task_by_key ts k = Some t}"
      proof (intro set_eqI iffI)
        fix x assume "x \<in> set out'"
        with t(4) consider "x \<in> set out" | "x = m"
          | t k where "x = flagged t" "k \<in> positive_sources es" "get_task_by_key ts1 k = Some t"
          by auto
        then show "x \<in> set out \<union>
                 {flagged t | t k. k \<in> positive_sources (e # es) \<and> get_task_by_key ts k = Some t}"
        proof cases
          case 1
          then show ?thesis by simp
        next
          case 2
          with t0(1,2) show ?thesis unfolding K by blast
        next
          case (3 t k)
          show ?thesis
          proof (cases "k = ?k0")
            case True
            with 3(3) t0(4) have "t = flagged t0" by simp
            with 3(1) have "x = flagged t0" by simp
            with t0(1) show ?thesis unfolding K by blast
          next
            case False
            with 3(3) t0(4) have "get_task_by_key ts k = Some t" by simp
            with 3(1,2) show ?thesis unfolding K by blast
          qed
        qed
      next
        fix x assume "x \<in> set out \<union>
                 {flagged t | t k. k \<in> positive_sources (e # es) \<and> get_task_by_key ts k = Some t}"
        then consider "x \<in> set out"
          | t k where "x = flagged t" "k \<in> insert ?k0 (positive_sources es)" "get_task_by_key ts k = Some t"
          unfolding K by blast
        then show "x \<in> set out'"
        proof cases
          case 1
          with t(4) show ?thesis by simp
        next
          case (2 t k)
          show ?thesis
          proof (cases "k = ?k0")
            case True
            with 2(3) t0(1) have "t = t0" by simp
            with 2(1) t0(2) t(4) show ?thesis by simp
          next
            case False
            with 2(2) have kin: "k \<in> positive_sources es" by simp
            from False 2(3) t0(4) have "get_task_by_key ts1 k = Some t" by simp
            with kin 2(1) t(4) show ?thesis by blast
          qed
        qed
      qed
      have c: "\<forall>i < length ts. ts' ! i = ts ! i \<or>
              (ts' ! i = flagged (ts ! i) \<and> (\<exists>k \<in> positive_sources (e # es). key (ts ! i) = Some k))"
      proof (intro allI impI)
        fix i assume i: "i < length ts"
        with t0(3) have i1: "i < length ts1" by simp
        from t0(5) i have s1: "ts1 ! i = ts ! i \<or> (ts1 ! i = flagged (ts ! i) \<and> key (ts ! i) = Some ?k0)"
          by blast
        from t(5) i1 have s2: "ts' ! i = ts1 ! i \<or>
              (ts' ! i = flagged (ts1 ! i) \<and> (\<exists>k \<in> positive_sources es. key (ts1 ! i) = Some k))"
          by blast
        from s1 s2 show "ts' ! i = ts ! i \<or>
              (ts' ! i = flagged (ts ! i) \<and> (\<exists>k \<in> positive_sources (e # es). key (ts ! i) = Some k))"
          unfolding K by (elim disjE conjE) auto
      qed
      from t(1,2) t0(3) a b c show ?thesis by (intro exI[of _ ts']) simp
    qed
  qed
qed


text \<open>
  Claim C7. After \<open>get_critical_tasks\<close> has returned, for every critical edge of positive
  duration whose source id, without the suffix \<open>_start\<close>, is the key of a task, that task
  (the one \<open>get_task_by_key\<close> finds) has \<open>keytask\<close> set and is in the list returned
  under the key of the graph; every task of that list comes from such an edge; and a task
  whose key comes from no critical edge of positive duration is left as it was.
\<close>

theorem critical_tasks_flagged:
  assumes res: "get_critical_tasks g = Inr (g', (pk, critical_tasks))" and ts: "tasks g = Some ts"
  shows "pk = gkey g \<and>
    (\<exists>ts'. tasks g' = Some ts' \<and> length ts' = length ts \<and>
       (\<forall>(u, v, w) \<in> set (critical_path g'). 0 < w \<longrightarrow>
          (\<forall>t. get_task_by_key ts (remove_suffix u ''_start'') = Some t \<longrightarrow>
               get_task_by_key ts' (remove_suffix u ''_start'') = Some (flagged t) \<and>
               flagged t \<in> set critical_tasks)) \<and>
       (\<forall>m \<in> set critical_tasks. \<exists>(u, v, w) \<in> set (critical_path g'). 0 < w \<and>
          (\<exists>t. get_task_by_key ts (remove_suffix u ''_start'') = Some t \<and> m = flagged t)) \<and>
       (\<forall>i < length ts.
          (\<forall>(u, v, w) \<in> set (critical_path g'). 0 < w \<longrightarrow> key (ts ! i) \<noteq> Some (remove_suffix u ''_start''))
          \<longrightarrow> ts' ! i = ts ! i))"
proof -
  from res obtain g1 where g1: "(critical_path g = [] \<and> (\<exists>r. calculate_critical_path g = Inr (g1, r)))
                                \<or> (critical_path g \<noteq> [] \<and> g1 = g)"
    and rest: "(case for_each annotate_edge (critical_path g1) (tasks g1, []) of
                  Inl e \<Rightarrow> Inl e
                | Inr (tasks_attr, critical_tasks) \<Rightarrow>
                    Inr (g1\<lparr> tasks := tasks_attr \<rparr>, (gkey g1, critical_tasks)))
               = Inr (g', (pk, critical_tasks))"
    unfolding get_critical_tasks_def by (auto split: sum.splits if_splits)
  have same: "tasks g1 = tasks g \<and> gkey g1 = gkey g"
  proof (cases "critical_path g = []")
    case True
    with g1 obtain r where "calculate_critical_path g = Inr (g1, r)" by blast
    from solver_frame[OF this]
    have "g1 = g\<lparr> ve := ve g1, vl := vl g1, critical_path := critical_path g1 \<rparr>" by simp
    then show ?thesis by (metis graph.select_convs(1,9) graph.surjective graph.update_convs(6,7,8))
  next
    case False
    with g1 show ?thesis by simp
  qed
  from rest obtain ta where loop: "for_each annotate_edge (critical_path g1) (tasks g1, []) = Inr (ta, critical_tasks)"
    and g': "g' = g1\<lparr> tasks := ta \<rparr>" and pk: "pk = gkey g1"
    by (auto split: sum.splits)
  from g' have cp: "critical_path g' = critical_path g1" and tg': "tasks g' = ta" by simp_all
  let ?K = "positive_sources (critical_path g')"
  from annotate_loop[OF loop[unfolded same[THEN conjunct1] ts]] cp obtain ts' where
    t: "ta = Some ts'" "length ts' = length ts"
      "\<forall>k. get_task_by_key ts' k =
              (if k \<in> ?K then map_option flagged (get_task_by_key ts k) else get_task_by_key ts k)"
      "set critical_tasks = set [] \<union> {flagged t | t k. k \<in> ?K \<and> get_task_by_key ts k = Some t}"
      "\<forall>i < length ts. ts' ! i = ts ! i \<or>
              (ts' ! i = flagged (ts ! i) \<and> (\<exists>k \<in> ?K. key (ts ! i) = Some k))"
    by auto
  have a: "\<forall>(u, v, w) \<in> set (critical_path g'). 0 < w \<longrightarrow>
          (\<forall>t. get_task_by_key ts (remove_suffix u ''_start'') = Some t \<longrightarrow>
               get_task_by_key ts' (remove_suffix u ''_start'') = Some (flagged t) \<and>
               flagged t \<in> set critical_tasks)"
  proof (intro ballI, clarify)
    fix u v w t assume e: "(u, v, w) \<in> set (critical_path g')" "0 < w"
      and g: "get_task_by_key ts (remove_suffix u ''_start'') = Some t"
    from e have k: "remove_suffix u ''_start'' \<in> ?K" unfolding positive_sources_def by blast
    with t(3) g have "get_task_by_key ts' (remove_suffix u ''_start'') = Some (flagged t)" by simp
    moreover from t(4) k g have "flagged t \<in> set critical_tasks" by blast
    ultimately show "get_task_by_key ts' (remove_suffix u ''_start'') = Some (flagged t) \<and>
               flagged t \<in> set critical_tasks" by simp
  qed
  have b: "\<forall>m \<in> set critical_tasks. \<exists>(u, v, w) \<in> set (critical_path g'). 0 < w \<and>
          (\<exists>t. get_task_by_key ts (remove_suffix u ''_start'') = Some t \<and> m = flagged t)"
  proof
    fix m assume "m \<in> set critical_tasks"
    with t(4) obtain t0 k where m: "m = flagged t0" "k \<in> ?K" "get_task_by_key ts k = Some t0" by auto
    from m(2) obtain u v w where "(u, v, w) \<in> set (critical_path g')" "0 < w" "k = remove_suffix u ''_start''"
      unfolding positive_sources_def by blast
    with m(1,3) show "\<exists>(u, v, w) \<in> set (critical_path g'). 0 < w \<and>
          (\<exists>t. get_task_by_key ts (remove_suffix u ''_start'') = Some t \<and> m = flagged t)"
      by (intro bexI[of _ "(u, v, w)"]) auto
  qed
  have c: "\<forall>i < length ts.
          (\<forall>(u, v, w) \<in> set (critical_path g'). 0 < w \<longrightarrow> key (ts ! i) \<noteq> Some (remove_suffix u ''_start''))
          \<longrightarrow> ts' ! i = ts ! i"
  proof (intro allI impI)
    fix i assume i: "i < length ts"
      and n: "\<forall>(u, v, w) \<in> set (critical_path g'). 0 < w \<longrightarrow> key (ts ! i) \<noteq> Some (remove_suffix u ''_start'')"
    have "\<not> (\<exists>k \<in> ?K. key (ts ! i) = Some k)"
      using n unfolding positive_sources_def by blast
    with t(5) i show "ts' ! i = ts ! i" by blast
  qed
  from pk same tg' t(1,2) a b c show ?thesis by simp
qed

lemma loose_pipeline:
  "\<exists>g. build_graph_from_tasks demo_calendar (init (Some ''PRJ'') (Some ''PRJ'')) loose_tasks
          (Some ''PRJ'') (Some ''PRJ'') = Inr g
      \<and> tasks g = Some loose_tasks
      \<and> (\<exists>g'. get_critical_tasks g = Inr (g', (Some ''PRJ'', [flagged (loose_tasks ! 0)])))"
  by (simp add: build_defs loose_tasks_def get_critical_tasks_def calculate_critical_path_def
        topological_sort_def annotate_edge_apply remove_suffix_def endswith_def flagged_def)

theorem critical_tasks_flagged_witness:
  "\<exists>g g' ts'. build_graph_from_tasks demo_calendar (init (Some ''PRJ'') (Some ''PRJ'')) loose_tasks
          (Some ''PRJ'') (Some ''PRJ'') = Inr g
      \<and> tasks g = Some loose_tasks
      \<and> get_critical_tasks g = Inr (g', (Some ''PRJ'', [flagged (loose_tasks ! 0)]))
      \<and> tasks g' = Some ts' \<and> length ts' = length loose_tasks \<and> Some ''PRJ'' = gkey g"
proof -
  from loose_pipeline obtain g g' where
    b: "build_graph_from_tasks demo_calendar (init (Some ''PRJ'') (Some ''PRJ'')) loose_tasks
          (Some ''PRJ'') (Some ''PRJ'') = Inr g"
    and t: "tasks g = Some loose_tasks"
    and r: "get_critical_tasks g = Inr (g', (Some ''PRJ'', [flagged (loose_tasks ! 0)]))"
    by blast
  from critical_tasks_flagged[OF r t] obtain ts' where
    "Some ''PRJ'' = gkey g" "tasks g' = Some ts'" "length ts' = length loose_tasks" by blast
  with b t r show ?thesis by blast
qed

subsection \<open>An unresolvable subtask aborts the computation\<close>

text \<open>
  Claim C1. The claim says that \<open>build_graph_from_tasks\<close> followed by
  \<open>get_critical_tasks\<close> always returns a result, also when the duration of a subtask is
  unresolvable. On a parent whose subtask has neither dates nor estimate the second loop
  of \<open>add_edges\<close> adds \<open>None\<close> to a number: the computation ends with \<open>TypeError\<close>.
\<close>

theorem unresolved_subtask_raises:
  "critical_path_computation demo_calendar unresolved_tasks (Some ''PRJ'') (Some ''PRJ'')
     = Inl TypeError"
  by (simp add: critical_path_computation_def build_defs unresolved_tasks_def)

end
